theory Spec2Isabelle
  imports Main
begin

section \<open>Strings, errors and floats of the validator\<close>

text \<open>
  The validator works on Python \<open>str\<close> values. A string is a list of code points; the
  model uses HOL's \<open>char\<close>, read as a code point below 256, so the character classes
  below are those of Python on that range: \<open>\d\<close> is \<open>0\<close>..\<open>9\<close>, the
  whitespace of \<open>str.split()\<close> and \<open>str.strip()\<close> is the twelve code points of
  \<open>isspace\<close>, and \<open>str.lower()\<close> folds \<open>A\<close>..\<open>Z\<close> and the
  upper-case letters of the Latin-1 supplement.

  Every operation of the source that can raise is a function into \<open>error + 'a\<close>;
  an exception that leaves \<open>is_valid_cron\<close> is the result \<open>Inl\<close> of it.
\<close>

datatype error = ValueError | IndexError | Unmodelled

text \<open>
  \<open>safe_parse_int\<close> returns a Python float. The only floats it can produce are NaN, the
  doubles nearest to a natural number, and infinity (a digit string too large for a
  double), so a float is one of these three.
\<close>

datatype pyfloat = NaN | Finite nat | Infinity

definition isdigit :: "char \<Rightarrow> bool" where
  "isdigit c = (c \<in> set ''0123456789'')"

definition islower_ascii :: "char \<Rightarrow> bool" where
  "islower_ascii c = (c \<in> set ''abcdefghijklmnopqrstuvwxyz'')"

definition isalpha_ascii :: "char \<Rightarrow> bool" where
  "isalpha_ascii c =
     (c \<in> set ''abcdefghijklmnopqrstuvwxyzABCDEFGHIJKLMNOPQRSTUVWXYZ'')"

definition isspace :: "char \<Rightarrow> bool" where
  "isspace c =
     (c \<in> set [CHR 0x09, CHR 0x0A, CHR 0x0B, CHR 0x0C, CHR 0x0D, CHR 0x1C, CHR 0x1D,
               CHR 0x1E, CHR 0x1F, CHR 0x20, CHR 0x85, CHR 0xA0])"

definition lower_char :: "char \<Rightarrow> char" where
  "lower_char c =
     (let n = (of_char c :: nat)
      in if (65 \<le> n \<and> n \<le> 90) \<or> (192 \<le> n \<and> n \<le> 222 \<and> n \<noteq> 215)
         then char_of (n + 32) else c)"

definition py_lower :: "string \<Rightarrow> string" where
  "py_lower s = map lower_char s"

definition py_strip :: "string \<Rightarrow> string" where
  "py_strip s = rev (dropWhile isspace (rev (dropWhile isspace s)))"

definition endswith :: "string \<Rightarrow> string \<Rightarrow> bool" where
  "endswith s suffix = (length suffix \<le> length s \<and> drop (length s - length suffix) s = suffix)"

text \<open>\<open>s.split(sep)\<close> for a one-character separator: never empty, one more part than
  there are separators.\<close>

fun split_on :: "char \<Rightarrow> string \<Rightarrow> string list" where
  "split_on sep [] = [[]]"
| "split_on sep (c # cs) =
     (if c = sep then [] # split_on sep cs
      else (c # hd (split_on sep cs)) # tl (split_on sep cs))"

text \<open>\<open>s.split()\<close>: the maximal runs of non-whitespace, scanned left to right;
  \<open>cur\<close> is the run being read, reversed.\<close>

fun split_ws :: "string \<Rightarrow> string \<Rightarrow> string list" where
  "split_ws cur [] = (if cur = [] then [] else [rev cur])"
| "split_ws cur (c # cs) =
     (if isspace c then (if cur = [] then split_ws [] cs else rev cur # split_ws [] cs)
      else split_ws (c # cur) cs)"

definition py_split :: "string \<Rightarrow> string list" where
  "py_split s = split_ws [] s"

text \<open>Subscripting and tuple unpacking, with the exceptions Python raises.\<close>

definition index :: "'a list \<Rightarrow> nat \<Rightarrow> error + 'a" where
  "index xs i = (if i < length xs then Inr (xs ! i) else Inl IndexError)"

definition unpack2 :: "'a list \<Rightarrow> error + ('a \<times> 'a)" where
  "unpack2 xs = (case xs of [a, b] \<Rightarrow> Inr (a, b) | _ \<Rightarrow> Inl ValueError)"

definition unpack5 :: "'a list \<Rightarrow> error + ('a \<times> 'a \<times> 'a \<times> 'a \<times> 'a)" where
  "unpack5 xs = (case xs of [a, b, c, d, e] \<Rightarrow> Inr (a, b, c, d, e) | _ \<Rightarrow> Inl ValueError)"

definition pop0 :: "'a list \<Rightarrow> error + ('a \<times> 'a list)" where
  "pop0 xs = (case xs of [] \<Rightarrow> Inl IndexError | x # rest \<Rightarrow> Inr (x, rest))"

text \<open>\<open>map(f, xs)\<close> consumed to the end: the first exception of \<open>f\<close> wins.\<close>

fun map_raise :: "('a \<Rightarrow> error + 'b) \<Rightarrow> 'a list \<Rightarrow> error + 'b list" where
  "map_raise f [] = Inr []"
| "map_raise f (x # xs) =
     (case f x of Inl e \<Rightarrow> Inl e
      | Inr y \<Rightarrow> (case map_raise f xs of Inl e \<Rightarrow> Inl e | Inr ys \<Rightarrow> Inr (y # ys)))"

subsection \<open>Conversion of a digit string to a double\<close>

definition digit_val :: "char \<Rightarrow> nat" where
  "digit_val c = of_char c - 48"

definition decimal :: "string \<Rightarrow> nat" where
  "decimal s = foldl (\<lambda>acc c. 10 * acc + digit_val c) 0 s"

fun bit_length :: "nat \<Rightarrow> nat" where
  "bit_length n = (if n = 0 then 0 else Suc (bit_length (n div 2)))"

text \<open>
  The double nearest to a natural number, ties to even: numbers below \<open>2^53\<close> are exact,
  larger ones keep 53 significant bits, and a result of \<open>2^1024\<close> or more is infinity.
\<close>

definition round_double :: "nat \<Rightarrow> pyfloat" where
  "round_double n =
     (if n < 2 ^ 53 then Finite n
      else
        let e = bit_length n - 53;
            q = n div 2 ^ e;
            r = n mod 2 ^ e;
            q' = (if 2 * r > 2 ^ e \<or> (2 * r = 2 ^ e \<and> odd q) then q + 1 else q);
            v = q' * 2 ^ e
        in if v < 2 ^ 1024 then Finite v else Infinity)"

text \<open>
  \<open>float(s)\<close> on the strings made of digits and whitespace. Around the digits
  \<open>float\<close> skips less than \<open>str.strip\<close> does: the ASCII separators 0x1C to 0x1F
  are not skipped. What is left must be one run of digits, else \<open>ValueError\<close>; and the
  conversion refuses a run of more than \<open>10^9\<close> digits behind its leading zeros, also
  with \<open>ValueError\<close>. Python's float literals with signs, points, exponents,
  underscores or names are outside this model (\<open>Unmodelled\<close>); the validator is shown
  never to reach them.
\<close>

definition isspace_float :: "char \<Rightarrow> bool" where
  "isspace_float c =
     (c \<in> set [CHR 0x09, CHR 0x0A, CHR 0x0B, CHR 0x0C, CHR 0x0D, CHR 0x20, CHR 0x85,
               CHR 0xA0])"

definition float_strip :: "string \<Rightarrow> string" where
  "float_strip s = rev (dropWhile isspace_float (rev (dropWhile isspace_float s)))"

definition max_digits :: nat where
  "max_digits = 1000000000"

definition significant_digits :: "string \<Rightarrow> string" where
  "significant_digits s = dropWhile (\<lambda>c. c = CHR ''0'') s"

definition py_float :: "string \<Rightarrow> error + pyfloat" where
  "py_float s =
     (let t = float_strip s
      in if t \<noteq> [] \<and> list_all isdigit t then
           (if max_digits < length (significant_digits t) then Inl ValueError
            else Inr (round_double (decimal t)))
         else if list_all (\<lambda>c. isdigit c \<or> isspace c) s then Inl ValueError
         else Inl Unmodelled)"

text \<open>Comparisons of a float with an int and with a float; every comparison with NaN
  is false.\<close>

fun float_ge_int :: "pyfloat \<Rightarrow> int \<Rightarrow> bool" where
  "float_ge_int NaN k = False"
| "float_ge_int (Finite n) k = (k \<le> int n)"
| "float_ge_int Infinity k = True"

fun float_le_int :: "pyfloat \<Rightarrow> int \<Rightarrow> bool" where
  "float_le_int NaN k = False"
| "float_le_int (Finite n) k = (int n \<le> k)"
| "float_le_int Infinity k = False"

fun float_gt_int :: "pyfloat \<Rightarrow> int \<Rightarrow> bool" where
  "float_gt_int NaN k = False"
| "float_gt_int (Finite n) k = (k < int n)"
| "float_gt_int Infinity k = True"

fun float_le :: "pyfloat \<Rightarrow> pyfloat \<Rightarrow> bool" where
  "float_le NaN y = False"
| "float_le x NaN = False"
| "float_le (Finite a) (Finite b) = (a \<le> b)"
| "float_le (Finite a) Infinity = True"
| "float_le Infinity (Finite b) = False"
| "float_le Infinity Infinity = True"

section \<open>The validator\<close>

text \<open>\<open>re.match(r"^\d+$", value)\<close>: one digit or more, then the end of the string or
  the newline that ends it.\<close>

definition match_digits :: "string \<Rightarrow> bool" where
  "match_digits v =
     (let core = (if v \<noteq> [] \<and> last v = CHR 0x0A then butlast v else v)
      in core \<noteq> [] \<and> list_all isdigit core)"

definition safe_parse_int :: "string \<Rightarrow> error + pyfloat" where
  "safe_parse_int v = (if match_digits v then py_float v else Inr NaN)"

definition is_wildcard :: "string \<Rightarrow> bool" where
  "is_wildcard v = (v = ''*'')"

definition is_question_mark :: "string \<Rightarrow> bool" where
  "is_question_mark v = (v = ''?'')"

definition is_in_range :: "pyfloat \<Rightarrow> int \<Rightarrow> int \<Rightarrow> bool" where
  "is_in_range v start stop = (float_ge_int v start \<and> float_le_int v stop)"

definition is_valid_range :: "string \<Rightarrow> int \<Rightarrow> int \<Rightarrow> error + bool" where
  "is_valid_range v start stop =
     (let sides = split_on CHR ''-'' v
      in if length sides = 1 then
           (if is_wildcard v then Inr True
            else (case safe_parse_int v of Inl e \<Rightarrow> Inl e
                  | Inr x \<Rightarrow> Inr (is_in_range x start stop)))
         else if length sides = 2 then
           (case map_raise safe_parse_int sides of Inl e \<Rightarrow> Inl e
            | Inr xs \<Rightarrow>
                (case unpack2 xs of Inl e \<Rightarrow> Inl e
                 | Inr (small, big) \<Rightarrow>
                     Inr (float_le small big \<and> is_in_range small start stop
                          \<and> is_in_range big start stop)))
         else Inr False)"

text \<open>\<open>re.search(r"[^\d]", value)\<close> and \<open>re.search(r"[^\d,/*-]", value)\<close>.\<close>

definition has_non_digit :: "string \<Rightarrow> bool" where
  "has_non_digit v = list_ex (\<lambda>c. \<not> isdigit c) v"

definition has_bad_char :: "string \<Rightarrow> bool" where
  "has_bad_char v = list_ex (\<lambda>c. \<not> (isdigit c \<or> c \<in> set '',/*-'')) v"

definition is_valid_step :: "string option \<Rightarrow> error + bool" where
  "is_valid_step v =
     (case v of None \<Rightarrow> Inr True
      | Some s \<Rightarrow>
          if has_non_digit s then Inr False
          else (case safe_parse_int s of Inl e \<Rightarrow> Inl e
                | Inr x \<Rightarrow> Inr (float_gt_int x 0)))"

text \<open>The loop of \<open>validate_for_range\<close> over the comma-separated conditions.\<close>

fun check_conditions :: "string list \<Rightarrow> int \<Rightarrow> int \<Rightarrow> error + bool" where
  "check_conditions [] start stop = Inr True"
| "check_conditions (condition # rest) start stop =
     (let splits = split_on CHR ''/'' condition
      in if endswith (py_strip condition) ''/'' then Inr False
         else if length splits > 2 then Inr False
         else
           (case index splits 0 of Inl e \<Rightarrow> Inl e
            | Inr left \<Rightarrow>
           (case (if length splits = 2
                  then (case index splits 1 of Inl e \<Rightarrow> Inl e | Inr s \<Rightarrow> Inr (Some s))
                  else Inr None) of Inl e \<Rightarrow> Inl e
            | Inr right \<Rightarrow>
           (case is_valid_range left start stop of Inl e \<Rightarrow> Inl e
            | Inr range_ok \<Rightarrow>
                if \<not> range_ok then Inr False
                else (case is_valid_step right of Inl e \<Rightarrow> Inl e
                      | Inr step_ok \<Rightarrow>
                          if \<not> step_ok then Inr False
                          else check_conditions rest start stop)))))"

definition validate_for_range :: "string \<Rightarrow> int \<Rightarrow> int \<Rightarrow> error + bool" where
  "validate_for_range v start stop =
     (if has_bad_char v then Inr False
      else check_conditions (split_on CHR '','' v) start stop)"

definition has_valid_seconds :: "string \<Rightarrow> error + bool" where
  "has_valid_seconds s = validate_for_range s 0 59"

definition has_valid_minutes :: "string \<Rightarrow> error + bool" where
  "has_valid_minutes m = validate_for_range m 0 59"

definition has_valid_hours :: "string \<Rightarrow> error + bool" where
  "has_valid_hours h = validate_for_range h 0 23"

definition has_valid_days :: "string \<Rightarrow> bool \<Rightarrow> error + bool" where
  "has_valid_days days allow_blank_day =
     (if allow_blank_day \<and> is_question_mark days then Inr True
      else validate_for_range days 1 31)"

definition month_alias :: "string \<rightharpoonup> string" where
  "month_alias = map_of
     [(''jan'', ''1''), (''feb'', ''2''), (''mar'', ''3''), (''apr'', ''4''),
      (''may'', ''5''), (''jun'', ''6''), (''jul'', ''7''), (''aug'', ''8''),
      (''sep'', ''9''), (''oct'', ''10''), (''nov'', ''11''), (''dec'', ''12'')]"

definition weekdays_alias :: "string \<rightharpoonup> string" where
  "weekdays_alias = map_of
     [(''sun'', ''0''), (''mon'', ''1''), (''tue'', ''2''), (''wed'', ''3''),
      (''thu'', ''4''), (''fri'', ''5''), (''sat'', ''6'')]"

text \<open>\<open>re.search(r"\/[a-zA-Z]", s)\<close>: a slash directly before an ASCII letter.\<close>

fun has_slash_alpha :: "string \<Rightarrow> bool" where
  "has_slash_alpha (a # b # cs) =
     ((a = CHR ''/'' \<and> isalpha_ascii b) \<or> has_slash_alpha (b # cs))"
| "has_slash_alpha cs = False"

text \<open>\<open>table.get(match.group(0).lower(), match.group(0))\<close>.\<close>

definition replace_alias :: "(string \<rightharpoonup> string) \<Rightarrow> string \<Rightarrow> string" where
  "replace_alias table m = (case table (py_lower m) of Some v \<Rightarrow> v | None \<Rightarrow> m)"

text \<open>\<open>re.sub(r"[a-z]{3}", repl, s)\<close>: from the left, three lower-case letters in a row
  are one match, replaced by \<open>repl\<close>, and the scan goes on behind them; any other
  character is copied.\<close>

fun re_sub3 :: "(string \<Rightarrow> string) \<Rightarrow> string \<Rightarrow> string" where
  "re_sub3 repl (a # b # c # cs) =
     (if islower_ascii a \<and> islower_ascii b \<and> islower_ascii c
      then repl [a, b, c] @ re_sub3 repl cs
      else a # re_sub3 repl (b # c # cs))"
| "re_sub3 repl cs = cs"

definition has_valid_months :: "string \<Rightarrow> bool \<Rightarrow> error + bool" where
  "has_valid_months months alias =
     (if has_slash_alpha months then Inr False
      else if alias then
        validate_for_range (re_sub3 (replace_alias month_alias) (py_lower months)) 1 12
      else validate_for_range months 1 12)"

record Options =
  "alias" :: bool
  seconds :: bool
  allowBlankDay :: bool
  allowSevenAsSunday :: bool
  allowNthWeekdayOfMonth :: bool

definition remap_weekdays :: "string \<Rightarrow> bool \<Rightarrow> string" where
  "remap_weekdays weekdays use_alias =
     (if use_alias then re_sub3 (replace_alias weekdays_alias) (py_lower weekdays)
      else weekdays)"

definition max_weekday_num :: "bool \<Rightarrow> int" where
  "max_weekday_num allow_seven_as_sunday = (if allow_seven_as_sunday then 7 else 6)"

definition has_valid_weekdays :: "string \<Rightarrow> Options \<Rightarrow> error + bool" where
  "has_valid_weekdays weekdays options =
     (if allowBlankDay options \<and> is_question_mark weekdays then Inr True
      else if \<not> allowBlankDay options \<and> is_question_mark weekdays then Inr False
      else if has_slash_alpha weekdays then Inr False
      else
        let remapped_weekdays = remap_weekdays weekdays (alias options);
            max_num = max_weekday_num (allowSevenAsSunday options);
            split_by_hash = split_on CHR ''#'' remapped_weekdays
        in if allowNthWeekdayOfMonth options \<and> length split_by_hash \<ge> 2 then
             (if length split_by_hash > 2 then Inr False
              else
                (case unpack2 (take 2 split_by_hash) of Inl e \<Rightarrow> Inl e
                 | Inr (weekday, occurrence) \<Rightarrow>
                (case safe_parse_int occurrence of Inl e \<Rightarrow> Inl e
                 | Inr occ \<Rightarrow>
                     if \<not> is_in_range occ 1 5 then Inr False
                     else (case safe_parse_int weekday of Inl e \<Rightarrow> Inl e
                           | Inr wd \<Rightarrow> Inr (is_in_range wd 0 max_num)))))
           else validate_for_range remapped_weekdays 0 max_num)"

definition has_compatible_day_format :: "string \<Rightarrow> string \<Rightarrow> bool \<Rightarrow> bool" where
  "has_compatible_day_format days weekdays allow_blank_day =
     (\<not> (allow_blank_day \<and> is_question_mark days \<and> is_question_mark weekdays))"

definition split_cron :: "string \<Rightarrow> string list" where
  "split_cron cron = py_split (py_strip cron)"

definition default_options :: Options where
  "default_options =
     \<lparr>alias = False, seconds = False, allowBlankDay = False,
      allowSevenAsSunday = False, allowNthWeekdayOfMonth = False\<rparr>"

text \<open>\<open>{**default_options, **(partial_options or {})}\<close>: each key of the partial
  options overrides the default; the keys the validator never reads are dropped.\<close>

definition merge_options :: "(string \<rightharpoonup> bool) option \<Rightarrow> Options" where
  "merge_options partial_options =
     (let p = (case partial_options of None \<Rightarrow> Map.empty | Some d \<Rightarrow> d);
          get = (\<lambda>key dflt. case p key of Some b \<Rightarrow> b | None \<Rightarrow> dflt)
      in \<lparr>alias = get ''alias'' (alias default_options),
          seconds = get ''seconds'' (seconds default_options),
          allowBlankDay = get ''allowBlankDay'' (allowBlankDay default_options),
          allowSevenAsSunday = get ''allowSevenAsSunday'' (allowSevenAsSunday default_options),
          allowNthWeekdayOfMonth =
            get ''allowNthWeekdayOfMonth'' (allowNthWeekdayOfMonth default_options)\<rparr>)"

text \<open>The five checks after the optional seconds check; \<open>checks\<close> holds what has been
  appended so far.\<close>

definition check_fields ::
  "bool list \<Rightarrow> string \<Rightarrow> string \<Rightarrow> string \<Rightarrow> string \<Rightarrow> string \<Rightarrow> Options \<Rightarrow> error + bool" where
  "check_fields checks minutes hours days months weekdays options =
     (case has_valid_minutes minutes of Inl e \<Rightarrow> Inl e | Inr c1 \<Rightarrow>
     (case has_valid_hours hours of Inl e \<Rightarrow> Inl e | Inr c2 \<Rightarrow>
     (case has_valid_days days (allowBlankDay options) of Inl e \<Rightarrow> Inl e | Inr c3 \<Rightarrow>
     (case has_valid_months months (alias options) of Inl e \<Rightarrow> Inl e | Inr c4 \<Rightarrow>
     (case has_valid_weekdays weekdays options of Inl e \<Rightarrow> Inl e | Inr c5 \<Rightarrow>
        Inr (list_all id
               (checks @ [c1, c2, c3, c4, c5,
                          has_compatible_day_format days weekdays (allowBlankDay options)])))))))"

definition is_valid_cron :: "string \<Rightarrow> (string \<rightharpoonup> bool) option \<Rightarrow> error + bool" where
  "is_valid_cron cron partial_options =
     (let options = merge_options partial_options;
          splits = split_cron cron
      in if length splits > (if seconds options then 6 else 5) \<or> length splits < 5
         then Inr False
         else
           (case (if length splits = 6
                  then (case pop0 splits of Inl e \<Rightarrow> Inl e
                        | Inr (secs, rest) \<Rightarrow>
                            (case has_valid_seconds secs of Inl e \<Rightarrow> Inl e
                             | Inr c0 \<Rightarrow> Inr ([c0], rest)))
                  else Inr ([], splits)) of Inl e \<Rightarrow> Inl e
            | Inr (checks, splits') \<Rightarrow>
                (case unpack5 splits' of
                   Inl ValueError \<Rightarrow> Inr False
                 | Inl e \<Rightarrow> Inl e
                 | Inr (minutes, hours, days, months, weekdays) \<Rightarrow>
                     check_fields checks minutes hours days months weekdays options)))"

text \<open>The \<open>(start, stop)\<close> pairs that the six field validators pass to
  \<open>validate_for_range\<close>: seconds, minutes, hours, day of month, month, and the two
  day-of-week bounds.\<close>

definition field_bounds :: "(int \<times> int) list" where
  "field_bounds = [(0, 59), (0, 59), (0, 23), (1, 31), (1, 12), (0, 6), (0, 7)]"

lemmas cron_eval = is_valid_cron_def check_fields_def check_conditions.simps merge_options_def default_options_def
  split_cron_def py_split_def py_strip_def pop0_def unpack5_def unpack2_def index_def
  has_valid_seconds_def has_valid_minutes_def has_valid_hours_def has_valid_days_def
  has_valid_months_def has_valid_weekdays_def has_compatible_day_format_def
  validate_for_range_def has_bad_char_def has_non_digit_def is_valid_step_def
  is_valid_range_def is_in_range_def is_wildcard_def is_question_mark_def safe_parse_int_def
  match_digits_def py_float_def float_strip_def isspace_float_def
  max_digits_def significant_digits_def round_double_def decimal_def digit_val_def isdigit_def
  isspace_def islower_ascii_def isalpha_ascii_def endswith_def remap_weekdays_def
  max_weekday_num_def replace_alias_def month_alias_def weekdays_alias_def py_lower_def
  lower_char_def char_of_def bit_Suc_0_iff Let_def

lemma split_on_nonempty: "split_on sep s \<noteq> []"
  by (induction s) auto

lemma length_split_on: "length (split_on sep s) = Suc (length (filter (\<lambda>c. c = sep) s))"
proof (induction s)
  case Nil
  show ?case by simp
next
  case (Cons c cs)
  have "length (tl (split_on sep cs)) = length (split_on sep cs) - 1" by simp
  with Cons show ?case by (simp add: split_on_nonempty)
qed

lemma split_on_no_sep: "sep \<notin> set s \<Longrightarrow> split_on sep s = [s]"
  by (induction s) auto

lemma split_on_append: "sep \<notin> set l \<Longrightarrow> split_on sep (l @ sep # r) = l # split_on sep r"
  by (induction l) auto

lemma split_on_two: "split_on sep s = [l, r] \<Longrightarrow> s = l @ sep # r \<and> sep \<notin> set l \<and> sep \<notin> set r"
proof (induction s arbitrary: l)
  case Nil
  then show ?case by simp
next
  case (Cons c cs)
  show ?case
  proof (cases "c = sep")
    case True
    with Cons.prems have l: "l = []" and r: "split_on sep cs = [r]" by auto
    have "length (filter (\<lambda>c. c = sep) cs) = 0"
      using length_split_on [of sep cs] r by simp
    then have "sep \<notin> set cs" by (auto simp: filter_empty_conv)
    then have "r = cs" using r split_on_no_sep by fastforce
    with True l \<open>sep \<notin> set cs\<close> show ?thesis by simp
  next
    case False
    with Cons.prems obtain l' where l: "l = c # l'" and sp: "split_on sep cs = [l', r]"
      using split_on_nonempty [of sep cs]
      by (cases "split_on sep cs") auto
    from Cons.IH [OF sp] False l show ?thesis by simp
  qed
qed

lemma split_on_parts_set: "x \<in> set (split_on sep s) \<Longrightarrow> set x \<subseteq> set s"
proof (induction s arbitrary: x)
  case Nil
  then show ?case by simp
next
  case (Cons c cs)
  obtain w ws where sp: "split_on sep cs = w # ws"
    using split_on_nonempty [of sep cs] by (cases "split_on sep cs") auto
  show ?case
  proof (cases "c = sep")
    case True
    with Cons show ?thesis by auto
  next
    case False
    with Cons.prems sp have "x = c # w \<or> x \<in> set ws" by simp
    then show ?thesis
    proof
      assume "x = c # w"
      moreover have "set w \<subseteq> set cs" using Cons.IH [of w] sp by simp
      ultimately show ?thesis by auto
    next
      assume "x \<in> set ws"
      then have "set x \<subseteq> set cs" using Cons.IH [of x] sp by simp
      then show ?thesis by auto
    qed
  qed
qed

lemma length_split_on_part: "x \<in> set (split_on sep s) \<Longrightarrow> length x \<le> length s"
proof (induction s arbitrary: x)
  case Nil
  then show ?case by simp
next
  case (Cons c cs)
  obtain w ws where sp: "split_on sep cs = w # ws"
    using split_on_nonempty [of sep cs] by (cases "split_on sep cs") auto
  show ?case
  proof (cases "c = sep")
    case True
    with Cons.prems have "x = [] \<or> x \<in> set (split_on sep cs)" by simp
    then show ?thesis using Cons.IH [of x] by auto
  next
    case False
    with Cons.prems sp have "x = c # w \<or> x \<in> set ws" by simp
    then show ?thesis
    proof
      assume "x = c # w"
      moreover have "length w \<le> length cs" using Cons.IH [of w] sp by simp
      ultimately show ?thesis by simp
    next
      assume "x \<in> set ws"
      then have "length x \<le> length cs" using Cons.IH [of x] sp by simp
      then show ?thesis by simp
    qed
  qed
qed

lemma digit_not_space: "isdigit c \<Longrightarrow> \<not> isspace c"
  by (auto simp: isdigit_def isspace_def)

lemma digit_not_space_float: "isdigit c \<Longrightarrow> \<not> isspace_float c"
  by (auto simp: isdigit_def isspace_float_def)

lemma strip_ends:
  assumes "s \<noteq> []" and "\<not> P (hd s)" and "\<not> P (last s)"
  shows "rev (dropWhile P (rev (dropWhile P s))) = s"
    and "P c \<Longrightarrow> rev (dropWhile P (rev (dropWhile P (s @ [c])))) = s"
proof -
  from assms(1,2) have 1: "dropWhile P s = s" by (cases s) auto
  from assms(1,2) have 3: "dropWhile P (s @ [c]) = s @ [c]" by (cases s) auto
  from assms(1,3) have 2: "dropWhile P (rev s) = rev s"
    by (cases "rev s") (auto simp: last_rev [symmetric] simp del: last_rev)
  show "rev (dropWhile P (rev (dropWhile P s))) = s" by (simp add: 1 2)
  show "P c \<Longrightarrow> rev (dropWhile P (rev (dropWhile P (s @ [c])))) = s" by (simp add: 3 2)
qed

lemma digits_ends: "s \<noteq> [] \<Longrightarrow> list_all isdigit s \<Longrightarrow> isdigit (hd s) \<and> isdigit (last s)"
  by (simp add: list_all_iff)

lemma strip_digits:
  assumes "s \<noteq> []" and "list_all isdigit s"
  shows "py_strip s = s"
  unfolding py_strip_def
proof (rule strip_ends(1))
  show "s \<noteq> []" by (rule assms(1))
  show "\<not> isspace (hd s)" using digits_ends [OF assms] digit_not_space by blast
  show "\<not> isspace (last s)" using digits_ends [OF assms] digit_not_space by blast
qed

lemma float_strip_digits:
  assumes "s \<noteq> []" and "list_all isdigit s"
  shows "float_strip s = s"
  unfolding float_strip_def
proof (rule strip_ends(1))
  show "s \<noteq> []" by (rule assms(1))
  show "\<not> isspace_float (hd s)" using digits_ends [OF assms] digit_not_space_float by blast
  show "\<not> isspace_float (last s)" using digits_ends [OF assms] digit_not_space_float by blast
qed

lemma float_strip_digits_newline:
  assumes "s \<noteq> []" and "list_all isdigit s"
  shows "float_strip (s @ [CHR 0x0A]) = s"
  unfolding float_strip_def
proof (rule strip_ends(2))
  show "s \<noteq> []" by (rule assms(1))
  show "\<not> isspace_float (hd s)" using digits_ends [OF assms] digit_not_space_float by blast
  show "\<not> isspace_float (last s)" using digits_ends [OF assms] digit_not_space_float by blast
  show "isspace_float (CHR 0x0A)" by (simp add: isspace_float_def)
qed

lemma length_float_strip: "length (float_strip s) \<le> length s"
proof -
  have "length (dropWhile isspace_float (rev (dropWhile isspace_float s)))
          \<le> length (rev (dropWhile isspace_float s))"
    by (rule length_dropWhile_le)
  also have "\<dots> \<le> length s" by (simp add: length_dropWhile_le)
  finally show ?thesis by (simp add: float_strip_def)
qed

lemma length_significant_digits: "length (significant_digits s) \<le> length s"
  by (simp add: significant_digits_def length_dropWhile_le)

lemma match_digits_cases:
  assumes "match_digits v"
  shows "\<exists>s. s \<noteq> [] \<and> list_all isdigit s \<and> (v = s \<or> v = s @ [CHR 0x0A])"
proof (cases "v \<noteq> [] \<and> last v = CHR 0x0A")
  case True
  with assms have "butlast v \<noteq> []" and "list_all isdigit (butlast v)"
    by (simp_all add: match_digits_def Let_def)
  moreover from True have "v = butlast v @ [CHR 0x0A]"
    using append_butlast_last_id [of v] by simp
  ultimately show ?thesis by blast
next
  case False
  with assms have "v \<noteq> []" and "list_all isdigit v"
    by (auto simp: match_digits_def Let_def)
  then show ?thesis by blast
qed

lemma match_digits_strip:
  "match_digits v \<Longrightarrow> float_strip v \<noteq> [] \<and> list_all isdigit (float_strip v)"
  using match_digits_cases [of v] float_strip_digits float_strip_digits_newline by auto

text \<open>\<open>safe_parse_int\<close> raises on a digit string that \<open>float\<close> refuses, and only
  there.\<close>

lemma safe_parse_int_value:
  "safe_parse_int v =
     (if match_digits v then
        (if max_digits < length (significant_digits (float_strip v)) then Inl ValueError
         else Inr (round_double (decimal (float_strip v))))
      else Inr NaN)"
  using match_digits_strip [of v] by (simp add: safe_parse_int_def py_float_def Let_def)

lemma safe_parse_int_error:
  assumes "safe_parse_int v = Inl e"
  shows "e = ValueError \<and> max_digits < length v"
proof -
  from assms have e: "e = ValueError"
    and "max_digits < length (significant_digits (float_strip v))"
    by (auto simp: safe_parse_int_value split: if_splits)
  moreover have "length (significant_digits (float_strip v)) \<le> length v"
    using length_significant_digits [of "float_strip v"] length_float_strip [of v] by linarith
  ultimately show ?thesis by linarith
qed

lemma safe_parse_int_short: "length v \<le> max_digits \<Longrightarrow> \<exists>x. safe_parse_int v = Inr x"
  using safe_parse_int_error [of v] by (cases "safe_parse_int v") auto

lemma newline_not_digit: "\<not> isdigit (CHR 0x0A)"
  by (simp add: isdigit_def)

lemma match_digits_digits:
  assumes "s \<noteq> []" and "list_all isdigit s"
  shows "match_digits s"
proof -
  from assms have "isdigit (last s)" by (simp add: list_all_iff)
  then have "last s \<noteq> CHR 0x0A" using newline_not_digit by metis
  with assms show ?thesis by (simp add: match_digits_def Let_def)
qed

lemma safe_parse_int_digits:
  "s \<noteq> [] \<Longrightarrow> list_all isdigit s \<Longrightarrow>
     safe_parse_int s =
       (if max_digits < length (significant_digits s) then Inl ValueError
        else Inr (round_double (decimal s)))"
  by (simp add: safe_parse_int_value match_digits_digits float_strip_digits)

lemma decimal_significant: "decimal (significant_digits s) = decimal s"
proof (induction s)
  case Nil
  show ?case by (simp add: significant_digits_def)
next
  case (Cons c cs)
  show ?case
  proof (cases "c = CHR ''0''")
    case True
    have "decimal (CHR ''0'' # cs) = decimal cs" by (simp add: decimal_def digit_val_def)
    with True Cons show ?thesis by (simp add: significant_digits_def)
  next
    case False
    then show ?thesis by (simp add: significant_digits_def)
  qed
qed

lemma foldl_decimal_ge:
  "a * 10 ^ length t \<le> foldl (\<lambda>acc c. 10 * acc + digit_val c) a t"
proof (induction t arbitrary: a)
  case Nil
  show ?case by simp
next
  case (Cons c cs)
  have "a * 10 ^ length (c # cs) \<le> (10 * a + digit_val c) * 10 ^ length cs"
    by (simp add: algebra_simps)
  also have "\<dots> \<le> foldl (\<lambda>acc c. 10 * acc + digit_val c) (10 * a + digit_val c) cs"
    by (rule Cons.IH)
  finally show ?case by simp
qed

lemma digit_val_pos: "isdigit c \<Longrightarrow> c \<noteq> CHR ''0'' \<Longrightarrow> 1 \<le> digit_val c"
  by (auto simp: isdigit_def digit_val_def)

text \<open>A digit string that \<open>float\<close> refuses stands for a number of at least
  \<open>10^(10^9)\<close>, far beyond every bound of the validator.\<close>

lemma decimal_long:
  assumes "list_all isdigit s" and "max_digits < length (significant_digits s)"
  shows "2 ^ 53 \<le> decimal s"
proof -
  define t where "t = significant_digits s"
  from assms(2) have "t \<noteq> []" by (auto simp: t_def)
  then obtain c t' where t: "t = c # t'" by (cases t) auto
  have "\<not> (hd t = CHR ''0'')"
    using \<open>t \<noteq> []\<close> unfolding t_def significant_digits_def by (rule hd_dropWhile)
  with t have c0: "c \<noteq> CHR ''0''" by simp
  have "c \<in> set s"
    using t set_dropWhileD [of c "\<lambda>c. c = CHR ''0''" s]
    by (simp add: t_def [symmetric] significant_digits_def [symmetric])
  with assms(1) have "isdigit c" by (simp add: list_all_iff)
  then have c1: "1 \<le> digit_val c" using c0 by (rule digit_val_pos)
  from assms(2) t have "max_digits \<le> length t'" by (simp add: t_def [symmetric])
  then have "16 \<le> length t'" by (simp add: max_digits_def)
  then have "(10::nat) ^ 16 \<le> 10 ^ length t'" by (rule power_increasing) simp
  moreover have "(2::nat) ^ 53 \<le> 10 ^ 16" by simp
  ultimately have "(2::nat) ^ 53 \<le> 10 ^ length t'" by (rule order_trans [rotated])
  also have "\<dots> \<le> digit_val c * 10 ^ length t'" using c1 by simp
  also have "\<dots> \<le> foldl (\<lambda>acc c. 10 * acc + digit_val c) (digit_val c) t'"
    by (rule foldl_decimal_ge)
  also have "\<dots> = decimal t" by (simp add: t decimal_def)
  also have "\<dots> = decimal s" by (simp add: t_def decimal_significant)
  finally show ?thesis .
qed

declare bit_length.simps [simp del]

lemma bit_length_upper: "n < 2 ^ bit_length n"
proof (induction n rule: bit_length.induct)
  case (1 n)
  show ?case
  proof (cases "n = 0")
    case True
    then show ?thesis by (simp add: bit_length.simps [of n])
  next
    case False
    with 1 have "n div 2 < 2 ^ bit_length (n div 2)" by simp
    then have "n < 2 * 2 ^ bit_length (n div 2)" by linarith
    with False show ?thesis by (simp add: bit_length.simps [of n])
  qed
qed

lemma bit_length_lower: "n \<noteq> 0 \<Longrightarrow> 2 ^ (bit_length n - 1) \<le> n"
proof (induction n rule: bit_length.induct)
  case (1 n)
  show ?case
  proof (cases "n div 2 = 0")
    case True
    with 1 have "bit_length n = 1"
      by (simp add: bit_length.simps [of n] bit_length.simps [of 0])
    with 1 show ?thesis by simp
  next
    case False
    with 1 have ih: "2 ^ (bit_length (n div 2) - 1) \<le> n div 2" by simp
    from False have "bit_length (n div 2) \<noteq> 0"
      by (simp add: bit_length.simps [of "n div 2"])
    then obtain k where k: "bit_length (n div 2) = Suc k" by (cases "bit_length (n div 2)") auto
    with ih have "2 * 2 ^ k \<le> n" by simp
    with 1 k show ?thesis by (simp add: bit_length.simps [of n])
  qed
qed

lemma round_double_small: "n < 2 ^ 53 \<Longrightarrow> round_double n = Finite n"
  by (simp add: round_double_def)

lemma round_double_big:
  assumes "2 ^ 53 \<le> n"
  shows "round_double n = Infinity \<or> (\<exists>v. round_double n = Finite v \<and> 2 ^ 53 \<le> v)"
proof -
  define e where "e = bit_length n - 53"
  define q where "q = n div 2 ^ e"
  define r where "r = n mod 2 ^ e"
  define q' where "q' = (if 2 * r > 2 ^ e \<or> (2 * r = 2 ^ e \<and> odd q) then q + 1 else q)"
  from assms have n0: "n \<noteq> 0" by auto
  have "(2::nat) ^ 53 < 2 ^ bit_length n"
    using assms bit_length_upper [of n] by linarith
  then have bl: "53 < bit_length n"
    by (rule power_less_imp_less_exp [rotated]) simp
  then have bl_eq: "bit_length n - 1 = 52 + e" by (simp add: e_def)
  have "(2::nat) ^ (52 + e) \<le> n"
    using bit_length_lower [OF n0] by (simp only: bl_eq)
  then have "(2::nat) ^ 52 * 2 ^ e \<le> n"
    by (simp only: power_add)
  then have "2 ^ 52 \<le> q"
    unfolding q_def by (simp add: less_eq_div_iff_mult_less_eq)
  moreover have "q \<le> q'" by (simp add: q'_def)
  ultimately have "2 ^ 52 \<le> q'" by linarith
  moreover have "(2::nat) \<le> 2 ^ e" using bl by (cases e) (auto simp: e_def)
  ultimately have "(2::nat) ^ 52 * 2 \<le> q' * 2 ^ e" by (rule mult_le_mono)
  then have big: "2 ^ 53 \<le> q' * 2 ^ e" by simp
  have "round_double n = (if q' * 2 ^ e < 2 ^ 1024 then Finite (q' * 2 ^ e) else Infinity)"
    using assms unfolding round_double_def Let_def q'_def r_def q_def e_def
    by (simp only: not_less [symmetric] if_False)
  with big show ?thesis by (cases "q' * 2 ^ e < 2 ^ 1024") simp_all
qed

lemma in_range_round_double:
  assumes "hi < 2 ^ 53"
  shows "is_in_range (round_double n) lo hi = (lo \<le> int n \<and> int n \<le> hi)"
proof (cases "n < 2 ^ 53")
  case True
  then show ?thesis by (simp add: round_double_small is_in_range_def)
next
  case False
  then have big: "2 ^ 53 \<le> n" by simp
  then have "(2::int) ^ 53 \<le> int n" by (metis of_nat_le_iff of_nat_numeral of_nat_power)
  with assms have n: "\<not> int n \<le> hi" by linarith
  from round_double_big [OF big] show ?thesis
  proof
    assume "round_double n = Infinity"
    with n show ?thesis by (simp add: is_in_range_def)
  next
    assume "\<exists>v. round_double n = Finite v \<and> 2 ^ 53 \<le> v"
    then obtain v where v: "round_double n = Finite v" and vb: "2 ^ 53 \<le> v" by blast
    from vb have "(2::int) ^ 53 \<le> int v" by (metis of_nat_le_iff of_nat_numeral of_nat_power)
    with assms have "\<not> int v \<le> hi" by linarith
    with n v show ?thesis by (simp add: is_in_range_def)
  qed
qed

lemma positive_round_double: "float_gt_int (round_double n) 0 = (0 < n)"
proof (cases "n < 2 ^ 53")
  case True
  then show ?thesis by (simp add: round_double_small)
next
  case False
  then have big: "2 ^ 53 \<le> n" by simp
  then have "0 < n" by (metis not_less power_eq_0_iff zero_neq_numeral le_zero_eq neq0_conv)
  moreover have "float_gt_int (round_double n) 0"
    using round_double_big [OF big]
  proof
    assume "round_double n = Infinity"
    then show ?thesis by simp
  next
    assume "\<exists>v. round_double n = Finite v \<and> 2 ^ 53 \<le> v"
    then obtain v where v: "round_double n = Finite v" and vb: "2 ^ 53 \<le> v" by blast
    from vb have "0 < v" by (metis not_less power_eq_0_iff zero_neq_numeral le_zero_eq neq0_conv)
    with v show ?thesis by simp
  qed
  ultimately show ?thesis by simp
qed

lemma digit_not_lower: "isdigit c \<Longrightarrow> \<not> islower_ascii c"
  by (auto simp: isdigit_def islower_ascii_def)

lemma lower_char_digit: "isdigit c \<Longrightarrow> lower_char c = c"
  by (auto simp: isdigit_def lower_char_def)

lemma py_lower_digits: "list_all isdigit s \<Longrightarrow> py_lower s = s"
  by (induction s) (simp_all add: py_lower_def lower_char_digit)

lemma re_sub3_no_lower: "list_all (\<lambda>c. \<not> islower_ascii c) s \<Longrightarrow> re_sub3 repl s = s"
  by (induction repl s rule: re_sub3.induct) simp_all

lemma re_sub3_keeps:
  "c \<in> set s \<Longrightarrow> \<not> islower_ascii c \<Longrightarrow> c \<in> set (re_sub3 repl s)"
  by (induction repl s rule: re_sub3.induct) auto

lemma remap_weekdays_digits: "list_all isdigit s \<Longrightarrow> remap_weekdays s al = s"
proof -
  assume d: "list_all isdigit s"
  then have "list_all (\<lambda>c. \<not> islower_ascii c) s"
    by (simp add: list_all_iff digit_not_lower)
  with d show ?thesis
    by (simp add: remap_weekdays_def py_lower_digits re_sub3_no_lower)
qed

lemma lower_char_fixed:
  "lower_char (CHR ''#'') = CHR ''#''" "lower_char (CHR ''/'') = CHR ''/''"
  by (simp_all add: lower_char_def)

lemma not_lower_fixed: "\<not> islower_ascii (CHR ''#'')" "\<not> islower_ascii (CHR ''/'')"
  by (simp_all add: islower_ascii_def)

lemma remap_weekdays_keeps:
  assumes "c \<in> set s" and "c = CHR ''#'' \<or> c = CHR ''/''"
  shows "c \<in> set (remap_weekdays s al)"
proof (cases al)
  case False
  with assms show ?thesis by (simp add: remap_weekdays_def)
next
  case True
  from assms have "lower_char c \<in> set (py_lower s)" by (simp add: py_lower_def)
  moreover from assms(2) have "lower_char c = c" using lower_char_fixed by auto
  ultimately have "c \<in> set (py_lower s)" by simp
  moreover from assms(2) have "\<not> islower_ascii c" using not_lower_fixed by auto
  ultimately show ?thesis using True by (simp add: remap_weekdays_def re_sub3_keeps)
qed

lemma has_slash_alpha_slash: "has_slash_alpha s \<Longrightarrow> CHR ''/'' \<in> set s"
  by (induction s rule: has_slash_alpha.induct) auto

lemma no_slash_no_slash_alpha: "CHR ''/'' \<notin> set s \<Longrightarrow> \<not> has_slash_alpha s"
  using has_slash_alpha_slash by blast

lemma is_in_range_iff:
  "is_in_range x lo hi = (\<exists>a. x = Finite a \<and> lo \<le> int a \<and> int a \<le> hi)"
  by (cases x) (auto simp: is_in_range_def)

lemma match_digits_chars: "match_digits v \<Longrightarrow> c \<in> set v \<Longrightarrow> isdigit c \<or> c = CHR 0x0A"
  using match_digits_cases [of v] by (auto simp: list_all_iff)

lemma parse_Finite_chars:
  "safe_parse_int v = Inr (Finite a) \<Longrightarrow> c \<in> set v \<Longrightarrow> isdigit c \<or> c = CHR 0x0A"
  using match_digits_chars [of v c] by (cases "match_digits v") (simp_all add: safe_parse_int_value)

lemma digit_chars:
  "\<not> isdigit (CHR ''/'')" "\<not> isdigit (CHR ''-'')" "\<not> isdigit (CHR '','')" "\<not> isdigit (CHR ''#'')"
  "\<not> isdigit (CHR ''*'')" "\<not> isdigit (CHR ''?'')"
  by (simp_all add: isdigit_def)

lemma has_bad_char_digits: "list_all isdigit s \<Longrightarrow> \<not> has_bad_char s"
  by (simp add: has_bad_char_def list_all_iff list_ex_iff)

lemma has_bad_char_hash:
  assumes "CHR ''#'' \<in> set s"
  shows "has_bad_char s"
proof -
  have "\<not> (isdigit (CHR ''#'') \<or> CHR ''#'' \<in> set '',/*-'')"
    by (simp add: isdigit_def)
  with assms show ?thesis
    unfolding has_bad_char_def list_ex_iff by blast
qed

lemma has_non_digit_iff: "has_non_digit s = (\<not> list_all isdigit s)"
  by (simp add: has_non_digit_def list_all_iff list_ex_iff)

lemma digits_no_char: "list_all isdigit s \<Longrightarrow> \<not> isdigit c \<Longrightarrow> c \<notin> set s"
  by (auto simp: list_all_iff)

lemma length_two: "length xs = 2 \<Longrightarrow> \<exists>a b. xs = [a, b]"
  by (cases xs; cases "tl xs") auto

lemma length_five: "length xs = 5 \<Longrightarrow> \<exists>a b c d e. xs = [a, b, c, d, e]"
  by (cases xs; cases "tl xs"; cases "tl (tl xs)"; cases "tl (tl (tl xs))";
      cases "tl (tl (tl (tl xs)))") auto

text \<open>The only exception that leaves a function of the validator is the
  \<open>ValueError\<close> of \<open>float\<close>, and it needs an argument of more than \<open>10^9\<close>
  characters.\<close>

lemma is_valid_range_error:
  assumes "is_valid_range v start stop = Inl e"
  shows "e = ValueError \<and> max_digits < length v"
proof (cases "length (split_on CHR ''-'' v) = 2")
  case True
  then obtain l r where sp: "split_on CHR ''-'' v = [l, r]" using length_two by blast
  from assms have "safe_parse_int l = Inl e \<or> safe_parse_int r = Inl e"
    by (auto simp: is_valid_range_def sp unpack2_def split: sum.splits)
  then have "e = ValueError \<and> (max_digits < length l \<or> max_digits < length r)"
    using safe_parse_int_error by blast
  moreover have "length l \<le> length v" "length r \<le> length v"
    using length_split_on_part [of _ "CHR ''-''" v] by (simp_all add: sp)
  ultimately show ?thesis by linarith
next
  case False
  with assms have "safe_parse_int v = Inl e"
    by (auto simp: is_valid_range_def Let_def split: if_splits sum.splits)
  then show ?thesis by (rule safe_parse_int_error)
qed

lemma is_valid_step_error:
  assumes "is_valid_step st = Inl e"
  shows "\<exists>s. st = Some s \<and> e = ValueError \<and> max_digits < length s"
proof (cases st)
  case None
  with assms show ?thesis by (simp add: is_valid_step_def)
next
  case (Some s)
  with assms have "safe_parse_int s = Inl e"
    by (auto simp: is_valid_step_def split: if_splits sum.splits)
  with Some show ?thesis using safe_parse_int_error by blast
qed

text \<open>One round of the loop, with the subscripts resolved: \<open>split\<close> never returns an
  empty list, and \<open>splits[1]\<close> is read only when there are two parts.\<close>

lemma check_conditions_Cons:
  "check_conditions (c # cs) start stop =
     (if endswith (py_strip c) ''/'' then Inr False
      else if length (split_on CHR ''/'' c) > 2 then Inr False
      else
        (case is_valid_range (hd (split_on CHR ''/'' c)) start stop of Inl e \<Rightarrow> Inl e
         | Inr range_ok \<Rightarrow>
             if \<not> range_ok then Inr False
             else (case is_valid_step (if length (split_on CHR ''/'' c) = 2
                                       then Some (split_on CHR ''/'' c ! Suc 0) else None) of
                     Inl e \<Rightarrow> Inl e
                   | Inr step_ok \<Rightarrow>
                       if \<not> step_ok then Inr False else check_conditions cs start stop)))"
  using split_on_nonempty [of "CHR ''/''" c]
  by (simp add: Let_def index_def hd_conv_nth)

declare check_conditions.simps(2) [simp del]

lemma check_conditions_error:
  "check_conditions conds start stop = Inl e
     \<Longrightarrow> e = ValueError \<and> (\<exists>c \<in> set conds. max_digits < length c)"
proof (induction conds)
  case Nil
  then show ?case by simp
next
  case (Cons c cs)
  define splits where "splits = split_on CHR ''/'' c"
  have part: "x \<in> set splits \<Longrightarrow> length x \<le> length c" for x
    unfolding splits_def by (rule length_split_on_part)
  have ne: "splits \<noteq> []" unfolding splits_def by (rule split_on_nonempty)
  from Cons.prems
  consider (range) "is_valid_range (hd splits) start stop = Inl e"
    | (step) "length splits = 2" "is_valid_step (Some (splits ! Suc 0)) = Inl e"
    | (rest) "check_conditions cs start stop = Inl e"
    by (auto simp: check_conditions_Cons splits_def [symmetric] is_valid_step_def [of None]
        split: if_splits sum.splits)
  then show ?case
  proof cases
    case range
    then have "e = ValueError \<and> max_digits < length (hd splits)"
      by (rule is_valid_range_error)
    moreover have "length (hd splits) \<le> length c" using part [of "hd splits"] ne by simp
    ultimately show ?thesis by auto
  next
    case step
    then have "e = ValueError \<and> max_digits < length (splits ! Suc 0)"
      using is_valid_step_error by blast
    moreover have "length (splits ! Suc 0) \<le> length c" using part [of "splits ! Suc 0"] step(1) by simp
    ultimately show ?thesis by auto
  next
    case rest
    then show ?thesis using Cons.IH by auto
  qed
qed

lemma validate_for_range_error:
  assumes "validate_for_range v start stop = Inl e"
  shows "e = ValueError \<and> max_digits < length v"
proof -
  from assms have "check_conditions (split_on CHR '','' v) start stop = Inl e"
    by (auto simp: validate_for_range_def split: if_splits)
  then obtain c where e: "e = ValueError" and c: "c \<in> set (split_on CHR '','' v)"
    and l: "max_digits < length c"
    using check_conditions_error by blast
  from c have "length c \<le> length v" by (rule length_split_on_part)
  with e l show ?thesis by linarith
qed

lemma alias_value_length:
  "month_alias k = Some v \<Longrightarrow> length v \<le> 3" "weekdays_alias k = Some v \<Longrightarrow> length v \<le> 3"
  by (auto simp: month_alias_def weekdays_alias_def split: if_splits)

lemma length_replace_alias:
  "length (replace_alias month_alias [a, b, c]) \<le> 3"
  "length (replace_alias weekdays_alias [a, b, c]) \<le> 3"
  using alias_value_length by (auto simp: replace_alias_def split: option.splits)

lemma length_re_sub3:
  "(\<And>a b c. length (repl [a, b, c]) \<le> 3) \<Longrightarrow> length (re_sub3 repl s) \<le> length s"
proof (induction repl s rule: re_sub3.induct)
  case (1 repl a b c cs)
  show ?case
  proof (cases "islower_ascii a \<and> islower_ascii b \<and> islower_ascii c")
    case True
    with 1 have "length (re_sub3 repl cs) \<le> length cs" by simp
    moreover have "length (repl [a, b, c]) \<le> 3" by (rule 1(3))
    ultimately show ?thesis using True by simp
  next
    case False
    with 1 have "length (re_sub3 repl (b # c # cs)) \<le> length (b # c # cs)" by simp
    with False show ?thesis by auto
  qed
qed simp_all

lemma length_remap_months:
  "length (re_sub3 (replace_alias month_alias) (py_lower s)) \<le> length s"
  using length_re_sub3 [of "replace_alias month_alias" "py_lower s"] length_replace_alias(1)
  by (simp add: py_lower_def)

lemma length_remap_weekdays: "length (remap_weekdays s al) \<le> length s"
  using length_re_sub3 [of "replace_alias weekdays_alias" "py_lower s"] length_replace_alias(2)
  by (simp add: remap_weekdays_def py_lower_def)

lemma has_valid_days_error:
  "has_valid_days days allow_blank_day = Inl e \<Longrightarrow> e = ValueError \<and> max_digits < length days"
  using validate_for_range_error [of days 1 31 e]
  by (auto simp: has_valid_days_def split: if_splits)

lemma has_valid_months_error:
  assumes "has_valid_months months al = Inl e"
  shows "e = ValueError \<and> max_digits < length months"
proof (cases al)
  case True
  with assms have "validate_for_range (re_sub3 (replace_alias month_alias) (py_lower months))
                     1 12 = Inl e"
    by (auto simp: has_valid_months_def split: if_splits)
  then have "e = ValueError
      \<and> max_digits < length (re_sub3 (replace_alias month_alias) (py_lower months))"
    by (rule validate_for_range_error)
  then show ?thesis using length_remap_months [of months] by linarith
next
  case False
  with assms have "validate_for_range months 1 12 = Inl e"
    by (auto simp: has_valid_months_def split: if_splits)
  then show ?thesis by (rule validate_for_range_error)
qed

lemma has_valid_weekdays_error:
  assumes "has_valid_weekdays weekdays options = Inl e"
  shows "e = ValueError \<and> max_digits < length weekdays"
proof -
  define R where "R = remap_weekdays weekdays (alias options)"
  define mx where "mx = max_weekday_num (allowSevenAsSunday options)"
  have len: "length R \<le> length weekdays" unfolding R_def by (rule length_remap_weekdays)
  show ?thesis
  proof (cases "length (split_on CHR ''#'' R) = 2")
    case True
    then obtain l r where sp: "split_on CHR ''#'' R = [l, r]" using length_two by blast
    have parts: "length l \<le> length R" "length r \<le> length R"
      using length_split_on_part [of _ "CHR ''#''" R] by (simp_all add: sp)
    from assms
    consider "safe_parse_int l = Inl e" | "safe_parse_int r = Inl e"
      | "validate_for_range R 0 mx = Inl e"
      by (auto simp: has_valid_weekdays_def Let_def R_def [symmetric] mx_def [symmetric] sp
          unpack2_def split: if_splits sum.splits)
    then show ?thesis
    proof cases
      case 1
      then show ?thesis using safe_parse_int_error [of l e] parts len by linarith
    next
      case 2
      then show ?thesis using safe_parse_int_error [of r e] parts len by linarith
    next
      case 3
      then show ?thesis using validate_for_range_error [of R 0 mx e] len by linarith
    qed
  next
    case False
    with assms have "validate_for_range R 0 mx = Inl e"
      by (auto simp: has_valid_weekdays_def Let_def R_def [symmetric] mx_def [symmetric]
          split: if_splits)
    then show ?thesis using validate_for_range_error [of R 0 mx e] len by linarith
  qed
qed

lemma check_fields_error:
  assumes "check_fields checks m h d mo w options = Inl e"
  shows "e = ValueError \<and> (max_digits < length m \<or> max_digits < length h
           \<or> max_digits < length d \<or> max_digits < length mo \<or> max_digits < length w)"
proof -
  from assms
  consider "has_valid_minutes m = Inl e" | "has_valid_hours h = Inl e"
    | "has_valid_days d (allowBlankDay options) = Inl e"
    | "has_valid_months mo (alias options) = Inl e"
    | "has_valid_weekdays w options = Inl e"
    by (auto simp: check_fields_def split: sum.splits)
  then show ?thesis
  proof cases
    case 1
    then show ?thesis
      using validate_for_range_error [of m 0 59 e] by (simp add: has_valid_minutes_def)
  next
    case 2
    then show ?thesis
      using validate_for_range_error [of h 0 23 e] by (simp add: has_valid_hours_def)
  next
    case 3
    then show ?thesis using has_valid_days_error by blast
  next
    case 4
    then show ?thesis using has_valid_months_error by blast
  next
    case 5
    then show ?thesis using has_valid_weekdays_error by blast
  qed
qed

lemma length_split_ws_part:
  "x \<in> set (split_ws cur s) \<Longrightarrow> length x \<le> length cur + length s"
proof (induction s arbitrary: cur)
  case Nil
  then show ?case by (auto split: if_splits)
next
  case (Cons c cs)
  show ?case
  proof (cases "isspace c")
    case True
    with Cons.prems have "x = rev cur \<or> x \<in> set (split_ws [] cs)"
      by (auto split: if_splits)
    then show ?thesis using Cons.IH [of "[]"] by auto
  next
    case False
    with Cons.prems have "x \<in> set (split_ws (c # cur) cs)" by simp
    then show ?thesis using Cons.IH [of "c # cur"] by simp
  qed
qed

lemma length_py_strip: "length (py_strip s) \<le> length s"
proof -
  have "length (dropWhile isspace (rev (dropWhile isspace s)))
          \<le> length (rev (dropWhile isspace s))"
    by (rule length_dropWhile_le)
  also have "\<dots> \<le> length s" by (simp add: length_dropWhile_le)
  finally show ?thesis by (simp add: py_strip_def)
qed

lemma length_split_cron_part: "x \<in> set (split_cron cron) \<Longrightarrow> length x \<le> length cron"
  using length_split_ws_part [of x "[]" "py_strip cron"] length_py_strip [of cron]
  by (simp add: split_cron_def py_split_def)

lemma is_valid_cron_five:
  "split_cron cron = [m, h, d, mo, w] \<Longrightarrow>
     is_valid_cron cron partial_options
       = check_fields [] m h d mo w (merge_options partial_options)"
  by (simp add: is_valid_cron_def Let_def unpack5_def)

lemma is_valid_cron_six:
  "split_cron cron = [s, m, h, d, mo, w] \<Longrightarrow>
     is_valid_cron cron partial_options
       = (if seconds (merge_options partial_options) then
            (case has_valid_seconds s of Inl e \<Rightarrow> Inl e
             | Inr c0 \<Rightarrow> check_fields [c0] m h d mo w (merge_options partial_options))
          else Inr False)"
  by (simp add: is_valid_cron_def Let_def pop0_def unpack5_def split: sum.splits)

lemma is_valid_cron_other:
  "length (split_cron cron) \<noteq> 5 \<Longrightarrow> length (split_cron cron) \<noteq> 6 \<Longrightarrow>
     is_valid_cron cron partial_options = Inr False"
  by (auto simp: is_valid_cron_def Let_def)

lemma is_valid_cron_error:
  assumes "is_valid_cron cron partial_options = Inl e"
  shows "e = ValueError \<and> max_digits < length cron"
proof -
  have part: "x \<in> set (split_cron cron) \<Longrightarrow> length x \<le> length cron" for x
    by (rule length_split_cron_part)
  consider (five) "length (split_cron cron) = 5" | (six) "length (split_cron cron) = 6"
    | (other) "length (split_cron cron) \<noteq> 5" "length (split_cron cron) \<noteq> 6"
    by blast
  then show ?thesis
  proof cases
    case five
    then obtain m h d mo w where sp: "split_cron cron = [m, h, d, mo, w]"
      using length_five by blast
    from assms have "check_fields [] m h d mo w (merge_options partial_options) = Inl e"
      by (simp add: is_valid_cron_five [OF sp])
    then show ?thesis
      using check_fields_error part [of m] part [of h] part [of d] part [of mo] part [of w]
      by (fastforce simp: sp)
  next
    case six
    then obtain s rest where sr: "split_cron cron = s # rest" and "length rest = 5"
      by (cases "split_cron cron") auto
    then obtain m h d mo w where sp: "split_cron cron = [s, m, h, d, mo, w]"
      using length_five by blast
    from assms
    consider "has_valid_seconds s = Inl e"
      | c0 where "check_fields [c0] m h d mo w (merge_options partial_options) = Inl e"
      by (auto simp: is_valid_cron_six [OF sp] split: if_splits sum.splits)
    then show ?thesis
    proof cases
      case 1
      then show ?thesis
        using validate_for_range_error [of s 0 59 e] part [of s]
        by (simp add: has_valid_seconds_def sp)
    next
      case 2
      then show ?thesis
        using check_fields_error part [of m] part [of h] part [of d] part [of mo] part [of w]
        by (fastforce simp: sp)
    qed
  next
    case other
    with assms show ?thesis by (simp add: is_valid_cron_other)
  qed
qed

lemma is_valid_cron_short:
  "length cron \<le> max_digits \<Longrightarrow> \<exists>b. is_valid_cron cron partial_options = Inr b"
  using is_valid_cron_error [of cron partial_options]
  by (cases "is_valid_cron cron partial_options") auto

lemma endswith_char: "endswith s [c] \<Longrightarrow> c \<in> set s"
proof -
  assume "endswith s [c]"
  then have "drop (length s - 1) s = [c]" by (simp add: endswith_def)
  then have "c \<in> set (drop (length s - 1) s)" by simp
  then show ?thesis using set_drop_subset by fastforce
qed

lemma is_valid_range_digits:
  assumes "s \<noteq> []" and "list_all isdigit s" and "stop < 2 ^ 53"
  shows "is_valid_range s start stop
           = (if max_digits < length (significant_digits s) then Inl ValueError
              else Inr (start \<le> int (decimal s) \<and> int (decimal s) \<le> stop))"
proof -
  have "CHR ''-'' \<notin> set s" using assms(2) digits_no_char digit_chars(2) by blast
  then have sp: "split_on CHR ''-'' s = [s]" by (rule split_on_no_sep)
  have "CHR ''*'' \<notin> set s" using assms(2) digits_no_char digit_chars(5) by blast
  then have nw: "\<not> is_wildcard s" by (auto simp: is_wildcard_def)
  show ?thesis
    by (simp add: is_valid_range_def sp nw safe_parse_int_digits [OF assms(1,2)]
        in_range_round_double [OF assms(3)])
qed

lemma validate_for_range_digits:
  assumes "s \<noteq> []" and "list_all isdigit s" and "stop < 2 ^ 53"
  shows "validate_for_range s start stop
           = (if max_digits < length (significant_digits s) then Inl ValueError
              else Inr (start \<le> int (decimal s) \<and> int (decimal s) \<le> stop))"
proof -
  have "CHR '','' \<notin> set s" using assms(2) digits_no_char digit_chars(3) by blast
  then have comma: "split_on CHR '','' s = [s]" by (rule split_on_no_sep)
  have ns: "CHR ''/'' \<notin> set s" using assms(2) digits_no_char digit_chars(1) by blast
  then have slash: "split_on CHR ''/'' s = [s]" by (rule split_on_no_sep)
  have ends: "\<not> endswith (py_strip s) ''/''"
    using ns endswith_char [of s "CHR ''/''"] by (auto simp: strip_digits [OF assms(1,2)])
  have step: "is_valid_step None = Inr True" by (simp add: is_valid_step_def)
  show ?thesis
    by (simp add: validate_for_range_def has_bad_char_digits [OF assms(2)] comma
        check_conditions_Cons slash ends step is_valid_range_digits [OF assms])
qed

lemma decimal_long_bound:
  assumes "list_all isdigit s" and "max_digits < length (significant_digits s)"
    and "stop < 2 ^ 53"
  shows "\<not> int (decimal s) \<le> stop"
proof -
  have "2 ^ 53 \<le> decimal s" using assms(1,2) by (rule decimal_long)
  then have "(2::int) ^ 53 \<le> int (decimal s)"
    by (metis of_nat_le_iff of_nat_numeral of_nat_power)
  with assms(3) show ?thesis by linarith
qed

lemma validate_for_range_digits_iff:
  assumes "s \<noteq> []" and "list_all isdigit s" and "stop < 2 ^ 53"
  shows "(validate_for_range s start stop = Inr True)
           = (start \<le> int (decimal s) \<and> int (decimal s) \<le> stop)"
  using decimal_long_bound [OF assms(2) _ assms(3)]
  by (auto simp: validate_for_range_digits [OF assms])

lemma has_valid_weekdays_digits:
  assumes "s \<noteq> []" and "list_all isdigit s"
  shows "has_valid_weekdays s options
           = validate_for_range s 0 (max_weekday_num (allowSevenAsSunday options))"
proof -
  have "CHR ''?'' \<notin> set s" using assms(2) digits_no_char digit_chars(6) by blast
  then have q: "\<not> is_question_mark s" by (auto simp: is_question_mark_def)
  have "CHR ''/'' \<notin> set s" using assms(2) digits_no_char digit_chars(1) by blast
  then have sl: "\<not> has_slash_alpha s" by (rule no_slash_no_slash_alpha)
  have "CHR ''#'' \<notin> set s" using assms(2) digits_no_char digit_chars(4) by blast
  then have sp: "split_on CHR ''#'' s = [s]" by (rule split_on_no_sep)
  show ?thesis
    by (simp add: has_valid_weekdays_def q sl remap_weekdays_digits [OF assms(2)] sp)
qed

lemma has_valid_weekdays_hash:
  assumes "CHR ''#'' \<in> set weekdays" and "\<not> allowNthWeekdayOfMonth options"
  shows "has_valid_weekdays weekdays options = Inr False"
proof -
  from assms(1) have q: "\<not> is_question_mark weekdays" by (auto simp: is_question_mark_def)
  have "CHR ''#'' \<in> set (remap_weekdays weekdays (alias options))"
    using assms(1) by (simp add: remap_weekdays_keeps)
  then have "has_bad_char (remap_weekdays weekdays (alias options))"
    by (rule has_bad_char_hash)
  then have "validate_for_range (remap_weekdays weekdays (alias options))
               0 (max_weekday_num (allowSevenAsSunday options)) = Inr False"
    by (simp add: validate_for_range_def)
  with q assms(2) show ?thesis
    by (simp add: has_valid_weekdays_def Let_def)
qed

lemma float_pair_iff:
  "(float_le x y \<and> is_in_range x lo hi \<and> is_in_range y lo hi)
     = (\<exists>a b. x = Finite a \<and> y = Finite b \<and> a \<le> b
              \<and> lo \<le> int a \<and> int a \<le> hi \<and> lo \<le> int b \<and> int b \<le> hi)"
  by (cases x; cases y) (auto simp: is_in_range_def)


lemma is_valid_range_two:
  assumes "split_on CHR ''-'' v = [l, r]"
  shows "is_valid_range v start stop
           = (case safe_parse_int l of Inl e \<Rightarrow> Inl e
              | Inr x \<Rightarrow>
                  (case safe_parse_int r of Inl e \<Rightarrow> Inl e
                   | Inr y \<Rightarrow> Inr (float_le x y \<and> is_in_range x start stop
                                    \<and> is_in_range y start stop)))"
  by (simp add: is_valid_range_def assms unpack2_def split: sum.splits)

lemma is_valid_range_two_iff:
  assumes "split_on CHR ''-'' v = [l, r]"
  shows "(is_valid_range v start stop = Inr True)
           = (\<exists>a b. safe_parse_int l = Inr (Finite a) \<and> safe_parse_int r = Inr (Finite b)
                    \<and> a \<le> b \<and> start \<le> int a \<and> int a \<le> stop
                    \<and> start \<le> int b \<and> int b \<le> stop)"
  by (auto simp: is_valid_range_two [OF assms] float_pair_iff split: sum.splits)

lemma is_valid_range_two_short:
  assumes "split_on CHR ''-'' v = [l, r]"
    and "length l \<le> max_digits" and "length r \<le> max_digits"
  shows "is_valid_range v start stop
           = Inr (\<exists>a b. safe_parse_int l = Inr (Finite a) \<and> safe_parse_int r = Inr (Finite b)
                        \<and> a \<le> b \<and> start \<le> int a \<and> int a \<le> stop
                        \<and> start \<le> int b \<and> int b \<le> stop)"
proof -
  obtain x where x: "safe_parse_int l = Inr x" using safe_parse_int_short [OF assms(2)] by blast
  obtain y where y: "safe_parse_int r = Inr y" using safe_parse_int_short [OF assms(3)] by blast
  show ?thesis by (simp add: is_valid_range_two [OF assms(1)] x y float_pair_iff)
qed

lemma is_valid_range_many:
  assumes "1 < length (filter (\<lambda>c. c = CHR ''-'') w)"
  shows "is_valid_range w start stop = Inr False"
proof -
  from assms have "2 < length (split_on CHR ''-'' w)" by (simp add: length_split_on)
  then show ?thesis by (simp add: is_valid_range_def)
qed

lemma safe_parse_int_star: "safe_parse_int ''*'' = Inr NaN"
  by (simp add: safe_parse_int_def match_digits_def isdigit_def)

lemma is_valid_step_Some:
  "is_valid_step (Some s)
     = (if list_all isdigit s \<and> max_digits < length (significant_digits s) then Inl ValueError
        else Inr (s \<noteq> [] \<and> list_all isdigit s \<and> 0 < decimal s))"
proof (cases "list_all isdigit s")
  case False
  then show ?thesis by (simp add: is_valid_step_def has_non_digit_iff)
next
  case True
  show ?thesis
  proof (cases "s = []")
    case e: True
    have "safe_parse_int [] = Inr NaN" by (simp add: safe_parse_int_def match_digits_def)
    with e show ?thesis
      by (simp add: is_valid_step_def has_non_digit_iff significant_digits_def)
  next
    case ne: False
    from ne True show ?thesis
      by (simp add: is_valid_step_def has_non_digit_iff safe_parse_int_digits
          positive_round_double)
  qed
qed

lemma is_valid_step_Some_iff:
  "(is_valid_step (Some s) = Inr True)
     = (s \<noteq> [] \<and> list_all isdigit s \<and> 0 < decimal s
        \<and> length (significant_digits s) \<le> max_digits)"
  by (auto simp: is_valid_step_Some)

lemma check_conditions_Cons_True:
  assumes "check_conditions (c # cs) start stop = Inr True"
  shows "check_conditions cs start stop = Inr True"
    and "split_on CHR ''/'' c = [rng, st] \<Longrightarrow> is_valid_step (Some st) = Inr True"
proof -
  from assms show "check_conditions cs start stop = Inr True"
    by (auto simp: check_conditions_Cons split: if_splits sum.splits)
  assume sp: "split_on CHR ''/'' c = [rng, st]"
  from assms show "is_valid_step (Some st) = Inr True"
    by (auto simp: check_conditions_Cons sp split: if_splits sum.splits)
qed

lemma check_conditions_step:
  "check_conditions conds start stop = Inr True \<Longrightarrow> t \<in> set conds
     \<Longrightarrow> split_on CHR ''/'' t = [rng, st] \<Longrightarrow> is_valid_step (Some st) = Inr True"
proof (induction conds)
  case Nil
  then show ?case by simp
next
  case (Cons c cs)
  from Cons.prems(2) have "t = c \<or> t \<in> set cs" by auto
  then show ?case
  proof
    assume "t = c"
    with Cons.prems show ?thesis using check_conditions_Cons_True(2) by blast
  next
    assume "t \<in> set cs"
    with Cons show ?thesis using check_conditions_Cons_True(1) by blast
  qed
qed

lemma validate_for_range_True:
  "validate_for_range v start stop = Inr True
     \<Longrightarrow> check_conditions (split_on CHR '','' v) start stop = Inr True"
  by (cases "has_bad_char v") (simp_all add: validate_for_range_def)

lemma remap_weekdays_question: "remap_weekdays ''?'' al = ''?''"
  by (simp add: remap_weekdays_def py_lower_def lower_char_def)

lemma not_digit_or_newline: "\<not> (isdigit (CHR ''/'') \<or> CHR ''/'' = CHR 0x0A)"
  by (simp add: isdigit_def)


lemma has_valid_weekdays_nth:
  assumes nth: "allowNthWeekdayOfMonth options"
    and hash: "CHR ''#'' \<in> set (remap_weekdays weekdays (alias options))"
  shows "(has_valid_weekdays weekdays options = Inr True)
           = (\<exists>l r a b.
                split_on CHR ''#'' (remap_weekdays weekdays (alias options)) = [l, r]
                \<and> safe_parse_int l = Inr (Finite a)
                \<and> int a \<le> max_weekday_num (allowSevenAsSunday options)
                \<and> safe_parse_int r = Inr (Finite b) \<and> 1 \<le> b \<and> b \<le> 5)"
    and "length weekdays \<le> max_digits \<Longrightarrow>
         has_valid_weekdays weekdays options
           = Inr (\<exists>l r a b.
                    split_on CHR ''#'' (remap_weekdays weekdays (alias options)) = [l, r]
                    \<and> safe_parse_int l = Inr (Finite a)
                    \<and> int a \<le> max_weekday_num (allowSevenAsSunday options)
                    \<and> safe_parse_int r = Inr (Finite b) \<and> 1 \<le> b \<and> b \<le> 5)"
proof -
  define R where "R = remap_weekdays weekdays (alias options)"
  define mx where "mx = max_weekday_num (allowSevenAsSunday options)"
  define rhs where "rhs = (\<exists>l r a b. split_on CHR ''#'' R = [l, r]
                    \<and> safe_parse_int l = Inr (Finite a) \<and> int a \<le> mx
                    \<and> safe_parse_int r = Inr (Finite b) \<and> 1 \<le> b \<and> b \<le> 5)"
  have q: "\<not> is_question_mark weekdays"
  proof
    assume "is_question_mark weekdays"
    then have "R = ''?''" by (simp add: is_question_mark_def R_def remap_weekdays_question)
    with hash show False by (simp add: R_def [symmetric])
  qed
  from hash have ne: "filter (\<lambda>c. c = CHR ''#'') R \<noteq> []"
    by (simp add: R_def [symmetric] filter_empty_conv)
  have len: "2 \<le> length (split_on CHR ''#'' R)"
    using ne by (cases "filter (\<lambda>c. c = CHR ''#'') R") (simp_all add: length_split_on)
  have res: "(\<forall>b. has_valid_weekdays weekdays options = Inr b \<longrightarrow> b = rhs)
             \<and> (rhs \<longrightarrow> has_valid_weekdays weekdays options = Inr True)"
  proof (cases "has_slash_alpha weekdays")
    case True
    then have "CHR ''/'' \<in> set weekdays" by (rule has_slash_alpha_slash)
    then have sl: "CHR ''/'' \<in> set R" by (simp add: R_def remap_weekdays_keeps)
    have "\<not> rhs"
    proof
      assume rhs
      then obtain l r a b where sp: "split_on CHR ''#'' R = [l, r]"
        and pl: "safe_parse_int l = Inr (Finite a)" and pr: "safe_parse_int r = Inr (Finite b)"
        unfolding rhs_def by blast
      from split_on_two [OF sp] have "R = l @ CHR ''#'' # r" by simp
      with sl have "CHR ''/'' \<in> set l \<or> CHR ''/'' \<in> set r" by auto
      then show False
        using parse_Finite_chars [OF pl] parse_Finite_chars [OF pr] not_digit_or_newline
        by blast
    qed
    with True q show ?thesis by (simp add: has_valid_weekdays_def)
  next
    case False
    show ?thesis
    proof (cases "2 < length (split_on CHR ''#'' R)")
      case True
      then have "\<not> rhs" by (auto simp: rhs_def)
      with True False q nth len show ?thesis
        by (simp add: has_valid_weekdays_def Let_def R_def [symmetric])
    next
      case short: False
      with len have "length (split_on CHR ''#'' R) = 2" by simp
      then obtain l r where sp: "split_on CHR ''#'' R = [l, r]" using length_two by blast
      have hv: "has_valid_weekdays weekdays options
              = (case safe_parse_int r of Inl e \<Rightarrow> Inl e
                 | Inr occ \<Rightarrow>
                     if \<not> is_in_range occ 1 5 then Inr False
                     else (case safe_parse_int l of Inl e \<Rightarrow> Inl e
                           | Inr wd \<Rightarrow> Inr (is_in_range wd 0 mx)))"
        using False q nth
        by (simp add: has_valid_weekdays_def Let_def R_def [symmetric] mx_def [symmetric]
            sp unpack2_def)
      have r: "rhs = (\<exists>a b. safe_parse_int l = Inr (Finite a) \<and> int a \<le> mx
                        \<and> safe_parse_int r = Inr (Finite b) \<and> 1 \<le> b \<and> b \<le> 5)"
        by (simp add: rhs_def sp)
      show ?thesis
        by (auto simp: hv r is_in_range_iff split: sum.splits if_splits)
    qed
  qed
  from res show "(has_valid_weekdays weekdays options = Inr True)
           = (\<exists>l r a b.
                split_on CHR ''#'' (remap_weekdays weekdays (alias options)) = [l, r]
                \<and> safe_parse_int l = Inr (Finite a)
                \<and> int a \<le> max_weekday_num (allowSevenAsSunday options)
                \<and> safe_parse_int r = Inr (Finite b) \<and> 1 \<le> b \<and> b \<le> 5)"
    unfolding rhs_def R_def mx_def by blast
  assume "length weekdays \<le> max_digits"
  then obtain b where b: "has_valid_weekdays weekdays options = Inr b"
    using has_valid_weekdays_error [of weekdays options]
    by (cases "has_valid_weekdays weekdays options") auto
  with res have "b = rhs" by blast
  with b show "has_valid_weekdays weekdays options
           = Inr (\<exists>l r a b.
                    split_on CHR ''#'' (remap_weekdays weekdays (alias options)) = [l, r]
                    \<and> safe_parse_int l = Inr (Finite a)
                    \<and> int a \<le> max_weekday_num (allowSevenAsSunday options)
                    \<and> safe_parse_int r = Inr (Finite b) \<and> 1 \<le> b \<and> b \<le> 5)"
    unfolding rhs_def R_def mx_def by simp
qed

lemma has_valid_weekdays_many_hash:
  assumes nth: "allowNthWeekdayOfMonth options"
    and many: "1 < length (filter (\<lambda>c. c = CHR ''#'') (remap_weekdays weekdays (alias options)))"
  shows "has_valid_weekdays weekdays options = Inr False"
proof -
  define R where "R = remap_weekdays weekdays (alias options)"
  from many have len: "2 < length (split_on CHR ''#'' R)"
    by (simp add: length_split_on R_def)
  have q: "\<not> is_question_mark weekdays"
  proof
    assume "is_question_mark weekdays"
    then have "R = ''?''" by (simp add: is_question_mark_def R_def remap_weekdays_question)
    with len show False by simp
  qed
  from q nth len show ?thesis
    by (simp add: has_valid_weekdays_def Let_def R_def [symmetric])
qed

lemma check_fields_True_iff:
  "(check_fields checks m h d mo w options = Inr True)
     = (list_all id checks \<and> has_valid_minutes m = Inr True \<and> has_valid_hours h = Inr True
        \<and> has_valid_days d (allowBlankDay options) = Inr True
        \<and> has_valid_months mo (alias options) = Inr True
        \<and> has_valid_weekdays w options = Inr True
        \<and> has_compatible_day_format d w (allowBlankDay options))"
  by (auto simp: check_fields_def split: sum.splits)

lemma is_valid_cron_True_iff:
  assumes "split_cron cron = pre @ [m, h, d, mo, w]"
  shows "(is_valid_cron cron partial_options = Inr True)
     = ((pre = [] \<or> (seconds (merge_options partial_options)
                      \<and> (\<exists>s. pre = [s] \<and> has_valid_seconds s = Inr True)))
        \<and> has_valid_minutes m = Inr True \<and> has_valid_hours h = Inr True
        \<and> has_valid_days d (allowBlankDay (merge_options partial_options)) = Inr True
        \<and> has_valid_months mo (alias (merge_options partial_options)) = Inr True
        \<and> has_valid_weekdays w (merge_options partial_options) = Inr True
        \<and> has_compatible_day_format d w (allowBlankDay (merge_options partial_options)))"
proof (cases pre)
  case Nil
  with assms show ?thesis
    by (simp add: is_valid_cron_five check_fields_True_iff)
next
  case (Cons s pre')
  show ?thesis
  proof (cases pre')
    case Nil
    with assms Cons have sp: "split_cron cron = [s, m, h, d, mo, w]" by simp
    show ?thesis
      by (auto simp: is_valid_cron_six [OF sp] Cons Nil check_fields_True_iff
          split: sum.splits)
  next
    case (Cons s' pre'')
    with \<open>pre = s # pre'\<close> assms have "6 < length (split_cron cron)" by simp
    then have "is_valid_cron cron partial_options = Inr False"
      by (simp add: is_valid_cron_other)
    with Cons \<open>pre = s # pre'\<close> show ?thesis by simp
  qed
qed

text \<open>A field of more than \<open>10^9\<close> digits in a five-field expression: the
  \<open>ValueError\<close> of \<open>float\<close> leaves \<open>is_valid_cron\<close>.\<close>

lemma split_ws_word:
  "list_all (\<lambda>c. \<not> isspace c) w \<Longrightarrow> split_ws cur (w @ rest) = split_ws (rev w @ cur) rest"
  by (induction w arbitrary: cur) simp_all

lemma long_field:
  assumes "max_digits < n"
  shows "replicate n CHR ''1'' \<noteq> []" and "list_all isdigit (replicate n CHR ''1'')"
    and "max_digits < length (significant_digits (replicate n CHR ''1''))"
proof -
  from assms show ne: "replicate n CHR ''1'' \<noteq> []" by auto
  show "list_all isdigit (replicate n CHR ''1'')" by (simp add: list_all_iff isdigit_def)
  have "significant_digits (replicate n CHR ''1'') = replicate n CHR ''1''"
    using ne by (cases n) (simp_all add: significant_digits_def)
  with assms show "max_digits < length (significant_digits (replicate n CHR ''1''))" by simp
qed

lemma safe_parse_int_long_field:
  "max_digits < n \<Longrightarrow> safe_parse_int (replicate n CHR ''1'') = Inl ValueError"
  using long_field [of n] by (simp add: safe_parse_int_digits)

lemma is_valid_cron_long_field:
  assumes "max_digits < n"
  shows "is_valid_cron (replicate n CHR ''1'' @ '' * * * *'') partial_options = Inl ValueError"
proof -
  define f where "f = replicate n CHR ''1''"
  have ne: "f \<noteq> []" and dg: "list_all isdigit f"
    and long: "max_digits < length (significant_digits f)"
    unfolding f_def using long_field [OF assms] by blast+
  from dg have ns: "list_all (\<lambda>c. \<not> isspace c) f"
    by (simp add: list_all_iff digit_not_space)
  have strip: "py_strip (f @ '' * * * *'') = f @ '' * * * *''"
    unfolding py_strip_def
  proof (rule strip_ends(1))
    show "f @ '' * * * *'' \<noteq> []" by simp
    show "\<not> isspace (hd (f @ '' * * * *''))"
      using ne digits_ends [OF ne dg] digit_not_space by (simp add: hd_append)
    show "\<not> isspace (last (f @ '' * * * *''))" by (simp add: isspace_def)
  qed
  have "split_ws [] (f @ '' * * * *'') = split_ws (rev f) '' * * * *''"
    using split_ws_word [OF ns, of "[]" "'' * * * *''"] by simp
  also have "\<dots> = [f, ''*'', ''*'', ''*'', ''*'']"
    using ne by (simp add: isspace_def)
  finally have sp: "split_cron (f @ '' * * * *'') = [f, ''*'', ''*'', ''*'', ''*'']"
    by (simp add: split_cron_def py_split_def strip)
  have "has_valid_minutes f = Inl ValueError"
    using long by (simp add: has_valid_minutes_def validate_for_range_digits [OF ne dg])
  then show ?thesis
    by (simp add: is_valid_cron_five [OF sp] check_fields_def f_def [symmetric])
qed

section \<open>The claims\<close>




text \<open>
  C2. Alias resolution replaces each successive block of three lower-case letters, not
  each maximal run of exactly three: the six-letter run \<open>janfeb\<close> becomes \<open>12\<close>, so
  the month field \<open>janfeb\<close> is accepted with \<open>alias\<close> enabled, while the longer name \<open>january\<close> is rejected.
\<close>

theorem adjacent_aliases_accepted:
  "re_sub3 (replace_alias month_alias) (py_lower ''janfeb'') = ''12''
   \<and> has_valid_months ''janfeb'' True = Inr True
   \<and> is_valid_cron ''* * * janfeb *'' (Some [''alias'' \<mapsto> True]) = Inr True
   \<and> is_valid_cron ''* * * january *'' (Some [''alias'' \<mapsto> True]) = Inr False"
  by (simp add: cron_eval)

text \<open>
  C3. \<open>is_valid_cron\<close> is not total: \<open>safe_parse_int\<close> lets a run of digits through
  to \<open>float\<close>, and \<open>float\<close> raises \<open>ValueError\<close> on more than \<open>10^9\<close>
  digits. The field validators are called outside the only \<open>try\<close> of
  \<open>is_valid_cron\<close>, so on the five-field expression whose minutes field is
  \<open>10^9 + 1\<close> ones the exception leaves the function.
\<close>

theorem long_digit_field_raises:
  "safe_parse_int (replicate 1000000001 CHR ''1'') = Inl ValueError
   \<and> is_valid_cron (replicate 1000000001 CHR ''1'' @ '' * * * *'') None = Inl ValueError"
proof -
  have m: "max_digits < 1000000001" by (simp add: max_digits_def)
  from m have 1: "safe_parse_int (replicate 1000000001 CHR ''1'') = Inl ValueError"
    by (rule safe_parse_int_long_field)
  from m have 2: "is_valid_cron (replicate 1000000001 CHR ''1'' @ '' * * * *'') None
                    = Inl ValueError"
    by (rule is_valid_cron_long_field)
  from 1 2 show ?thesis by (rule conjI)
qed

text \<open>
  C4. For the bounds of every field validator and every field that is a bare integer
  (one decimal digit or more, leading zeros allowed), \<open>validate_for_range\<close> succeeds
  exactly when the decimal value of the field lies within the bounds. On a field of
  more than \<open>10^9\<close> digits behind its leading zeros, whose value is out of every
  bound, it does not return false but raises.
\<close>

theorem validate_for_range_bare_integer:
  assumes "(start, stop) \<in> set field_bounds" and "f \<noteq> []" and "list_all isdigit f"
  shows "(validate_for_range f start stop = Inr True)
           = (start \<le> int (decimal f) \<and> int (decimal f) \<le> stop)
         \<and> validate_for_range f start stop
           = (if max_digits < length (significant_digits f) then Inl ValueError
              else Inr (start \<le> int (decimal f) \<and> int (decimal f) \<le> stop))"
proof -
  from assms(1) have "stop < 2 ^ 53" by (auto simp: field_bounds_def)
  with assms(2,3) show ?thesis
    using validate_for_range_digits validate_for_range_digits_iff by blast
qed

theorem validate_for_range_bare_integer_witness:
  "(1, 31) \<in> set field_bounds \<and> ''05'' \<noteq> [] \<and> list_all isdigit ''05''
   \<and> decimal ''05'' = 5 \<and> validate_for_range ''05'' 1 31 = Inr True
   \<and> (0, 59) \<in> set field_bounds \<and> validate_for_range ''60'' 0 59 = Inr False"
  using validate_for_range_bare_integer [of 1 31 "''05''"]
    validate_for_range_bare_integer [of 0 59 "''60''"]
  by (simp add: field_bounds_def isdigit_def decimal_def digit_val_def max_digits_def
      significant_digits_def)

text \<open>
  C5. A range expression with exactly one hyphen, \<open>l-r\<close>, is valid exactly when both
  sides parse to numbers, the left at most the right and both within \<open>[start, stop]\<close>;
  with sides of at most \<open>10^9\<close> characters the result is that truth value (there is no
  exception). A wildcard on either side is never valid, and more than one hyphen is
  rejected.
\<close>

theorem hyphenated_range:
  assumes "CHR ''-'' \<notin> set l" and "CHR ''-'' \<notin> set r"
  shows "(is_valid_range (l @ CHR ''-'' # r) start stop = Inr True)
           = (\<exists>a b. safe_parse_int l = Inr (Finite a) \<and> safe_parse_int r = Inr (Finite b)
                      \<and> a \<le> b \<and> start \<le> int a \<and> int a \<le> stop
                      \<and> start \<le> int b \<and> int b \<le> stop)
         \<and> (length l \<le> max_digits \<and> length r \<le> max_digits
              \<longrightarrow> is_valid_range (l @ CHR ''-'' # r) start stop
                    = Inr (\<exists>a b. safe_parse_int l = Inr (Finite a) \<and> safe_parse_int r = Inr (Finite b)
                                  \<and> a \<le> b \<and> start \<le> int a \<and> int a \<le> stop
                                  \<and> start \<le> int b \<and> int b \<le> stop))
         \<and> (l = ''*'' \<or> r = ''*''
              \<longrightarrow> is_valid_range (l @ CHR ''-'' # r) start stop \<noteq> Inr True)
         \<and> (1 < length (filter (\<lambda>c. c = CHR ''-'') w)
              \<longrightarrow> is_valid_range w start stop = Inr False)"
proof -
  have sp: "split_on CHR ''-'' (l @ CHR ''-'' # r) = [l, r]"
    using assms by (simp add: split_on_append split_on_no_sep)
  have 1: "(is_valid_range (l @ CHR ''-'' # r) start stop = Inr True)
           = (\<exists>a b. safe_parse_int l = Inr (Finite a) \<and> safe_parse_int r = Inr (Finite b)
                      \<and> a \<le> b \<and> start \<le> int a \<and> int a \<le> stop
                      \<and> start \<le> int b \<and> int b \<le> stop)"
    using sp by (rule is_valid_range_two_iff)
  have 2: "length l \<le> max_digits \<and> length r \<le> max_digits
              \<longrightarrow> is_valid_range (l @ CHR ''-'' # r) start stop
                    = Inr (\<exists>a b. safe_parse_int l = Inr (Finite a) \<and> safe_parse_int r = Inr (Finite b)
                                  \<and> a \<le> b \<and> start \<le> int a \<and> int a \<le> stop
                                  \<and> start \<le> int b \<and> int b \<le> stop)"
    using is_valid_range_two_short [OF sp] by blast
  have 3: "l = ''*'' \<or> r = ''*''
              \<longrightarrow> is_valid_range (l @ CHR ''-'' # r) start stop \<noteq> Inr True"
    using safe_parse_int_star by (auto simp: 1)
  have 4: "1 < length (filter (\<lambda>c. c = CHR ''-'') w)
              \<longrightarrow> is_valid_range w start stop = Inr False"
    using is_valid_range_many by blast
  from 1 2 3 4 show ?thesis by blast
qed

theorem hyphenated_range_witness:
  "CHR ''-'' \<notin> set ''1'' \<and> CHR ''-'' \<notin> set ''10'' \<and> CHR ''-'' \<notin> set ''*''
   \<and> length ''10'' \<le> max_digits
   \<and> is_valid_range ''1-10'' 0 59 = Inr True
   \<and> is_valid_range ''10-1'' 0 59 = Inr False
   \<and> is_valid_range ''1-60'' 0 59 = Inr False
   \<and> is_valid_range ''1-*'' 0 59 = Inr False
   \<and> is_valid_range ''1-10-20'' 0 59 = Inr False"
  using hyphenated_range [of "''1''" "''10''" 0 59 "''1-10-20''"]
    hyphenated_range [of "''10''" "''1''" 0 59 "''1-10-20''"]
    hyphenated_range [of "''1''" "''60''" 0 59 "''1-10-20''"]
    hyphenated_range [of "''1''" "''*''" 0 59 "''1-10-20''"]
  by (simp add: safe_parse_int_def match_digits_def py_float_def float_strip_def
      isspace_float_def max_digits_def significant_digits_def isdigit_def isspace_def
      round_double_def decimal_def digit_val_def)

text \<open>
  C6. An absent step is valid. A present step is valid exactly when it is one digit or
  more, \<open>float\<close> converts it (at most \<open>10^9\<close> digits behind the leading zeros) and
  its value is greater than zero; on an all-digit step that \<open>float\<close> refuses the
  check raises, on every other step it returns that truth value. In a valid field,
  every term with a step therefore has a positive all-digit step: a zero, negative or
  non-numeric step makes the field invalid.
\<close>

theorem step_validity:
  "is_valid_step None = Inr True
   \<and> (is_valid_step (Some s) = Inr True)
       = (s \<noteq> [] \<and> list_all isdigit s \<and> 0 < decimal s
          \<and> length (significant_digits s) \<le> max_digits)
   \<and> is_valid_step (Some s)
       = (if list_all isdigit s \<and> max_digits < length (significant_digits s)
          then Inl ValueError
          else Inr (s \<noteq> [] \<and> list_all isdigit s \<and> 0 < decimal s))
   \<and> (validate_for_range v start stop = Inr True \<and> t \<in> set (split_on CHR '','' v)
        \<and> split_on CHR ''/'' t = [rng, st]
      \<longrightarrow> st \<noteq> [] \<and> list_all isdigit st \<and> 0 < decimal st)"
proof -
  have 1: "is_valid_step None = Inr True" by (simp add: is_valid_step_def)
  have 2: "(is_valid_step (Some s) = Inr True)
       = (s \<noteq> [] \<and> list_all isdigit s \<and> 0 < decimal s
          \<and> length (significant_digits s) \<le> max_digits)"
    by (rule is_valid_step_Some_iff)
  have 3: "is_valid_step (Some s)
       = (if list_all isdigit s \<and> max_digits < length (significant_digits s)
          then Inl ValueError
          else Inr (s \<noteq> [] \<and> list_all isdigit s \<and> 0 < decimal s))"
    by (rule is_valid_step_Some)
  have 4: "validate_for_range v start stop = Inr True \<and> t \<in> set (split_on CHR '','' v)
        \<and> split_on CHR ''/'' t = [rng, st]
      \<longrightarrow> st \<noteq> [] \<and> list_all isdigit st \<and> 0 < decimal st"
  proof
    assume a: "validate_for_range v start stop = Inr True \<and> t \<in> set (split_on CHR '','' v)
        \<and> split_on CHR ''/'' t = [rng, st]"
    then have "check_conditions (split_on CHR '','' v) start stop = Inr True"
      using validate_for_range_True by blast
    with a have "is_valid_step (Some st) = Inr True"
      using check_conditions_step by blast
    then show "st \<noteq> [] \<and> list_all isdigit st \<and> 0 < decimal st"
      by (simp add: is_valid_step_Some_iff)
  qed
  from 1 2 3 4 show ?thesis by (intro conjI)
qed

theorem step_validity_witness:
  "is_valid_step (Some ''0'') = Inr False \<and> is_valid_step (Some ''-1'') = Inr False
   \<and> is_valid_step (Some ''abc'') = Inr False \<and> is_valid_step (Some ''1'') = Inr True
   \<and> validate_for_range ''1-10,*/2'' 0 59 = Inr True
   \<and> ''*/2'' \<in> set (split_on CHR '','' ''1-10,*/2'')
   \<and> split_on CHR ''/'' ''*/2'' = [''*'', ''2'']
   \<and> list_all isdigit ''2'' \<and> 0 < decimal ''2''
   \<and> validate_for_range ''*/0'' 0 59 = Inr False
   \<and> validate_for_range ''*/-1'' 0 59 = Inr False
   \<and> validate_for_range ''*/abc'' 0 59 = Inr False
   \<and> validate_for_range ''*/1'' 0 59 = Inr True"
  using step_validity [of "''0''" "''1-10,*/2''" 0 59 "''*/2''" "''*''" "''2''"]
    step_validity [of "''-1''" "''1-10,*/2''" 0 59 "''*/2''" "''*''" "''2''"]
    step_validity [of "''abc''" "''1-10,*/2''" 0 59 "''*/2''" "''*''" "''2''"]
    step_validity [of "''1''" "''1-10,*/2''" 0 59 "''*/2''" "''*''" "''2''"]
  by (simp add: cron_eval)

text \<open>
  C7. With \<open>allowNthWeekdayOfMonth\<close> enabled and a \<open>#\<close> in the alias-resolved
  day-of-week field, the field is valid exactly when it splits at \<open>#\<close> into two parts,
  the left parsing to a number within the weekday bound and the right to a number from 1
  to 5; on a field of at most \<open>10^9\<close> characters the result is that truth value (there
  is no exception). With more than one \<open>#\<close> it is invalid. The range and step grammar
  is not consulted, so \<open>mon-fri#2\<close> is invalid.
\<close>

theorem nth_weekday_of_month:
  assumes "allowNthWeekdayOfMonth options"
    and "CHR ''#'' \<in> set (remap_weekdays weekdays (alias options))"
  shows "(has_valid_weekdays weekdays options = Inr True)
           = (\<exists>l r a b.
                  split_on CHR ''#'' (remap_weekdays weekdays (alias options)) = [l, r]
                  \<and> safe_parse_int l = Inr (Finite a)
                  \<and> int a \<le> max_weekday_num (allowSevenAsSunday options)
                  \<and> safe_parse_int r = Inr (Finite b) \<and> 1 \<le> b \<and> b \<le> 5)
         \<and> (length weekdays \<le> max_digits
              \<longrightarrow> has_valid_weekdays weekdays options
                    = Inr (\<exists>l r a b.
                              split_on CHR ''#'' (remap_weekdays weekdays (alias options)) = [l, r]
                              \<and> safe_parse_int l = Inr (Finite a)
                              \<and> int a \<le> max_weekday_num (allowSevenAsSunday options)
                              \<and> safe_parse_int r = Inr (Finite b) \<and> 1 \<le> b \<and> b \<le> 5))
         \<and> (1 < length (filter (\<lambda>c. c = CHR ''#'') (remap_weekdays weekdays (alias options)))
              \<longrightarrow> has_valid_weekdays weekdays options = Inr False)
         \<and> is_valid_cron ''* * * * mon-fri#2''
              (Some [''allowNthWeekdayOfMonth'' \<mapsto> True, ''alias'' \<mapsto> True]) = Inr False"
proof -
  have "is_valid_cron ''* * * * mon-fri#2''
              (Some [''allowNthWeekdayOfMonth'' \<mapsto> True, ''alias'' \<mapsto> True]) = Inr False"
    by (simp add: cron_eval)
  then show ?thesis
    using has_valid_weekdays_nth [OF assms] has_valid_weekdays_many_hash [OF assms(1)]
    by blast
qed

theorem nth_weekday_of_month_witness:
  "allowNthWeekdayOfMonth (default_options\<lparr>alias := True, allowNthWeekdayOfMonth := True\<rparr>)
   \<and> remap_weekdays ''WED#5'' True = ''3#5'' \<and> length ''WED#5'' \<le> max_digits
   \<and> has_valid_weekdays ''WED#5''
        (default_options\<lparr>alias := True, allowNthWeekdayOfMonth := True\<rparr>) = Inr True
   \<and> has_valid_weekdays ''WED#6''
        (default_options\<lparr>alias := True, allowNthWeekdayOfMonth := True\<rparr>) = Inr False
   \<and> has_valid_weekdays ''7#1''
        (default_options\<lparr>alias := True, allowNthWeekdayOfMonth := True\<rparr>) = Inr False
   \<and> has_valid_weekdays ''mon-fri#2''
        (default_options\<lparr>alias := True, allowNthWeekdayOfMonth := True\<rparr>) = Inr False
   \<and> has_valid_weekdays ''1#2#3''
        (default_options\<lparr>alias := True, allowNthWeekdayOfMonth := True\<rparr>) = Inr False"
  using nth_weekday_of_month
      [of "default_options\<lparr>alias := True, allowNthWeekdayOfMonth := True\<rparr>" "''WED#5''"]
    nth_weekday_of_month
      [of "default_options\<lparr>alias := True, allowNthWeekdayOfMonth := True\<rparr>" "''WED#6''"]
    nth_weekday_of_month
      [of "default_options\<lparr>alias := True, allowNthWeekdayOfMonth := True\<rparr>" "''7#1''"]
    nth_weekday_of_month
      [of "default_options\<lparr>alias := True, allowNthWeekdayOfMonth := True\<rparr>" "''mon-fri#2''"]
    nth_weekday_of_month
      [of "default_options\<lparr>alias := True, allowNthWeekdayOfMonth := True\<rparr>" "''1#2#3''"]
  by (simp add: default_options_def cron_eval)

text \<open>
  C8. With \<open>allowBlankDay\<close> enabled, an expression whose day-of-month and day-of-week
  fields are both \<open>?\<close> is never valid, and on an expression of at most \<open>10^9\<close>
  characters the result is false (there is no exception). A valid expression stays valid
  when one of its two day fields is replaced by \<open>?\<close> and the other is not \<open>?\<close>.
  \<open>* * ? * ?\<close> is invalid and \<open>* * ? * *\<close> is valid.
\<close>

theorem blank_day_exclusive:
  assumes "allowBlankDay (merge_options partial_options)"
  shows "(split_cron cron = pre @ [m, h, ''?'', mo, ''?'']
            \<longrightarrow> is_valid_cron cron partial_options \<noteq> Inr True
                \<and> (length cron \<le> max_digits
                     \<longrightarrow> is_valid_cron cron partial_options = Inr False))
         \<and> (split_cron c1 = pre @ [m, h, d, mo, w] \<and> is_valid_cron c1 partial_options = Inr True
              \<and> w \<noteq> ''?'' \<and> split_cron c2 = pre @ [m, h, ''?'', mo, w]
            \<longrightarrow> is_valid_cron c2 partial_options = Inr True)
         \<and> (split_cron c1 = pre @ [m, h, d, mo, w] \<and> is_valid_cron c1 partial_options = Inr True
              \<and> d \<noteq> ''?'' \<and> split_cron c3 = pre @ [m, h, d, mo, ''?'']
            \<longrightarrow> is_valid_cron c3 partial_options = Inr True)
         \<and> is_valid_cron ''* * ? * ?'' (Some [''allowBlankDay'' \<mapsto> True]) = Inr False
         \<and> is_valid_cron ''* * ? * *'' (Some [''allowBlankDay'' \<mapsto> True]) = Inr True"
proof -
  have 1: "split_cron cron = pre @ [m, h, ''?'', mo, ''?'']
            \<longrightarrow> is_valid_cron cron partial_options \<noteq> Inr True
                \<and> (length cron \<le> max_digits
                     \<longrightarrow> is_valid_cron cron partial_options = Inr False)"
  proof
    assume sp: "split_cron cron = pre @ [m, h, ''?'', mo, ''?'']"
    have n: "is_valid_cron cron partial_options \<noteq> Inr True"
    proof
      assume "is_valid_cron cron partial_options = Inr True"
      then have "has_compatible_day_format ''?'' ''?''
                   (allowBlankDay (merge_options partial_options))"
        by (simp add: is_valid_cron_True_iff [OF sp])
      with assms show False
        by (simp add: has_compatible_day_format_def is_question_mark_def)
    qed
    have "length cron \<le> max_digits \<longrightarrow> is_valid_cron cron partial_options = Inr False"
    proof
      assume "length cron \<le> max_digits"
      then obtain b where b: "is_valid_cron cron partial_options = Inr b"
        using is_valid_cron_short by blast
      with n show "is_valid_cron cron partial_options = Inr False" by (cases b) simp_all
    qed
    with n show "is_valid_cron cron partial_options \<noteq> Inr True
                \<and> (length cron \<le> max_digits
                     \<longrightarrow> is_valid_cron cron partial_options = Inr False)"
      by (rule conjI)
  qed
  have 2: "split_cron c1 = pre @ [m, h, d, mo, w] \<and> is_valid_cron c1 partial_options = Inr True
              \<and> w \<noteq> ''?'' \<and> split_cron c2 = pre @ [m, h, ''?'', mo, w]
            \<longrightarrow> is_valid_cron c2 partial_options = Inr True"
  proof
    assume a: "split_cron c1 = pre @ [m, h, d, mo, w] \<and> is_valid_cron c1 partial_options = Inr True
              \<and> w \<noteq> ''?'' \<and> split_cron c2 = pre @ [m, h, ''?'', mo, w]"
    then have s1: "split_cron c1 = pre @ [m, h, d, mo, w]"
      and s2: "split_cron c2 = pre @ [m, h, ''?'', mo, w]"
      and v: "is_valid_cron c1 partial_options = Inr True" and w: "w \<noteq> ''?''" by simp_all
    from v w assms show "is_valid_cron c2 partial_options = Inr True"
      by (simp add: is_valid_cron_True_iff [OF s1] is_valid_cron_True_iff [OF s2]
          has_valid_days_def has_compatible_day_format_def is_question_mark_def)
  qed
  have 3: "split_cron c1 = pre @ [m, h, d, mo, w] \<and> is_valid_cron c1 partial_options = Inr True
              \<and> d \<noteq> ''?'' \<and> split_cron c3 = pre @ [m, h, d, mo, ''?'']
            \<longrightarrow> is_valid_cron c3 partial_options = Inr True"
  proof
    assume a: "split_cron c1 = pre @ [m, h, d, mo, w] \<and> is_valid_cron c1 partial_options = Inr True
              \<and> d \<noteq> ''?'' \<and> split_cron c3 = pre @ [m, h, d, mo, ''?'']"
    then have s1: "split_cron c1 = pre @ [m, h, d, mo, w]"
      and s3: "split_cron c3 = pre @ [m, h, d, mo, ''?'']"
      and v: "is_valid_cron c1 partial_options = Inr True" and d: "d \<noteq> ''?''" by simp_all
    from v d assms show "is_valid_cron c3 partial_options = Inr True"
      by (simp add: is_valid_cron_True_iff [OF s1] is_valid_cron_True_iff [OF s3]
          has_valid_weekdays_def has_compatible_day_format_def is_question_mark_def)
  qed
  have 4: "is_valid_cron ''* * ? * ?'' (Some [''allowBlankDay'' \<mapsto> True]) = Inr False"
    by (simp add: cron_eval)
  have 5: "is_valid_cron ''* * ? * *'' (Some [''allowBlankDay'' \<mapsto> True]) = Inr True"
    by (simp add: cron_eval)
  from 1 2 3 4 5 show ?thesis by (intro conjI)
qed

theorem blank_day_exclusive_witness:
  "allowBlankDay (merge_options (Some [''allowBlankDay'' \<mapsto> True]))
   \<and> split_cron ''* * ? * ?'' = [] @ [''*'', ''*'', ''?'', ''*'', ''?'']
   \<and> length ''* * ? * ?'' \<le> max_digits
   \<and> is_valid_cron ''* * ? * ?'' (Some [''allowBlankDay'' \<mapsto> True]) = Inr False
   \<and> split_cron ''* * 1 * 2'' = [] @ [''*'', ''*'', ''1'', ''*'', ''2'']
   \<and> is_valid_cron ''* * 1 * 2'' (Some [''allowBlankDay'' \<mapsto> True]) = Inr True
   \<and> split_cron ''* * ? * 2'' = [] @ [''*'', ''*'', ''?'', ''*'', ''2'']
   \<and> is_valid_cron ''* * ? * 2'' (Some [''allowBlankDay'' \<mapsto> True]) = Inr True
   \<and> split_cron ''* * 1 * ?'' = [] @ [''*'', ''*'', ''1'', ''*'', ''?'']
   \<and> is_valid_cron ''* * 1 * ?'' (Some [''allowBlankDay'' \<mapsto> True]) = Inr True"
  using blank_day_exclusive
      [of "Some [''allowBlankDay'' \<mapsto> True]" "''* * ? * ?''" "[]" "''*''" "''*''" "''*''"
          "''* * 1 * 2''" "''1''" "''2''" "''* * ? * 2''" "''* * 1 * ?''"]
  by (simp add: cron_eval)

text \<open>
  C9. A day-of-week field that is a bare integer is valid exactly up to 6, or up to 7 with
  \<open>allowSevenAsSunday\<close>; so the field \<open>7\<close> is valid exactly when the flag is set, and
  \<open>* * * * 7\<close> is invalid by default and valid with the flag. On a field of more than
  \<open>10^9\<close> digits behind its leading zeros, whose value is out of bound, the validator
  does not return false but raises.
\<close>

theorem weekday_bound_seven:
  assumes "f \<noteq> []" and "list_all isdigit f"
  shows "(has_valid_weekdays f options = Inr True)
           = (int (decimal f) \<le> (if allowSevenAsSunday options then 7 else 6))
         \<and> has_valid_weekdays f options
           = (if max_digits < length (significant_digits f) then Inl ValueError
              else Inr (int (decimal f) \<le> (if allowSevenAsSunday options then 7 else 6)))
         \<and> has_valid_weekdays ''7'' options = Inr (allowSevenAsSunday options)
         \<and> is_valid_cron ''* * * * 7'' None = Inr False
         \<and> is_valid_cron ''* * * * 7'' (Some [''allowSevenAsSunday'' \<mapsto> True]) = Inr True"
proof -
  have mx: "max_weekday_num (allowSevenAsSunday options) < 2 ^ 53"
    by (simp add: max_weekday_num_def)
  have 1: "(has_valid_weekdays f options = Inr True)
           = (int (decimal f) \<le> (if allowSevenAsSunday options then 7 else 6))"
    using validate_for_range_digits_iff [OF assms mx, of 0]
    by (simp add: has_valid_weekdays_digits [OF assms] max_weekday_num_def)
  have 2: "has_valid_weekdays f options
           = (if max_digits < length (significant_digits f) then Inl ValueError
              else Inr (int (decimal f) \<le> (if allowSevenAsSunday options then 7 else 6)))"
    using validate_for_range_digits [OF assms mx, of 0]
    by (simp add: has_valid_weekdays_digits [OF assms] max_weekday_num_def)
  have 3: "has_valid_weekdays ''7'' options = Inr (allowSevenAsSunday options)"
    by (simp add: cron_eval)
  have 4: "is_valid_cron ''* * * * 7'' None = Inr False"
    by (simp add: cron_eval)
  have 5: "is_valid_cron ''* * * * 7'' (Some [''allowSevenAsSunday'' \<mapsto> True]) = Inr True"
    by (simp add: cron_eval)
  from 1 2 3 4 5 show ?thesis by (intro conjI)
qed

theorem weekday_bound_seven_witness:
  "''6'' \<noteq> [] \<and> list_all isdigit ''6''
   \<and> has_valid_weekdays ''6'' default_options = Inr True
   \<and> has_valid_weekdays ''7'' default_options = Inr False
   \<and> has_valid_weekdays ''7'' (default_options\<lparr>allowSevenAsSunday := True\<rparr>) = Inr True
   \<and> has_valid_weekdays ''8'' (default_options\<lparr>allowSevenAsSunday := True\<rparr>) = Inr False"
  using weekday_bound_seven [of "''6''" default_options]
    weekday_bound_seven [of "''6''" "default_options\<lparr>allowSevenAsSunday := True\<rparr>"]
    weekday_bound_seven [of "''8''" "default_options\<lparr>allowSevenAsSunday := True\<rparr>"]
  by (simp add: isdigit_def decimal_def digit_val_def default_options_def max_digits_def
      significant_digits_def)

text \<open>
  C10. With \<open>allowNthWeekdayOfMonth\<close> disabled, every day-of-week field that contains
  \<open>#\<close> is invalid, \<open>1#2\<close> included: the \<open>#\<close> branch is skipped and
  \<open>validate_for_range\<close> rejects the character.
\<close>

theorem hash_rejected_without_nth:
  assumes "\<not> allowNthWeekdayOfMonth options" and "CHR ''#'' \<in> set weekdays"
  shows "has_valid_weekdays weekdays options = Inr False"
  using assms has_valid_weekdays_hash by blast

theorem hash_rejected_without_nth_witness:
  "\<not> allowNthWeekdayOfMonth default_options \<and> CHR ''#'' \<in> set ''1#2''
   \<and> has_valid_weekdays ''1#2'' default_options = Inr False
   \<and> has_valid_weekdays ''1#2'' (default_options\<lparr>allowNthWeekdayOfMonth := True\<rparr>) = Inr True"
  using hash_rejected_without_nth [of default_options "''1#2''"]
  by (simp add: default_options_def cron_eval)

end
